theory Spec2Isabelle
  imports Main
begin

section \<open>The SSA view consumed by arenacheck\<close>

text \<open>
  The analyzer of \<^verbatim>\<open>cmd/arenacheck/analyzer_final.go\<close> (and the earlier one of
  \<^verbatim>\<open>analyzer.go\<close>) walks the SSA form built by \<^verbatim>\<open>golang.org/x/tools/go/ssa\<close>. An
  \<^verbatim>\<open>ssa.Value\<close> or \<^verbatim>\<open>ssa.Instruction\<close> is a pointer to a node; the Go maps of the
  analyzer are keyed by that pointer. Here a pointer is an index \<open>vid\<close> into the table of
  nodes of the function, so that the value graph is finite and may be cyclic (a \<open>Phi\<close> may
  list itself among its edges). An index outside the table denotes a value the analyzer
  has no case for, the nil value included. The blocks of a function and the instructions
  in them are non-nil, as \<^verbatim>\<open>go/ssa\<close> builds them.
\<close>

type_synonym vid = nat

text \<open>\<^verbatim>\<open>callee.String()\<close> and \<^verbatim>\<open>callee.Name()\<close> of a statically resolved callee.\<close>

record callee =
  fullName :: string
  shortName :: string

text \<open>
  The node kinds the analyzer distinguishes by type assertion or type switch. \<open>Call\<close>
  carries \<^verbatim>\<open>Call.StaticCallee()\<close> (\<open>None\<close> for nil), \<^verbatim>\<open>Call.Value\<close> and \<^verbatim>\<open>Call.Args\<close>.
  \<open>OtherInstr\<close> is any other instruction with its operand slots, of which some may be nil
  (\<open>None\<close>); \<open>OtherValue\<close> is any other value (constant, parameter, function, ...).
\<close>

datatype node =
    Call "callee option" vid "vid list"
  | Store vid vid
  | Return "vid list"
  | UnOp vid
  | FieldAddr vid
  | IndexAddr vid vid
  | Phi "vid list"
  | MakeInterface vid
  | Global
  | OtherInstr "vid option list"
  | OtherValue

text \<open>
  \<^verbatim>\<open>types.Type\<close> as far as the claims need it: \<^verbatim>\<open>*types.Pointer\<close> with its element,
  \<^verbatim>\<open>*types.Named\<close> with its underlying type, \<^verbatim>\<open>*types.Alias\<close> (a declaration
  \<^verbatim>\<open>type A = T\<close>) with the type it stands for, \<^verbatim>\<open>*types.Interface\<close>, and any other type
  (basic, struct, slice, ...).
\<close>

datatype gtype = Pointer gtype | Named gtype | Alias gtype | Interface | OtherType

text \<open>
  \<^verbatim>\<open>ssa.Function\<close>: \<open>Blocks\<close> is \<open>None\<close> for a nil block list; each block lists its
  instructions in order. \<open>Type\<close> is \<^verbatim>\<open>Value.Type()\<close>.
\<close>

record ssa_function =
  Blocks :: "vid list list option"
  nodes :: "node list"
  Type :: "vid \<Rightarrow> gtype"

definition node_of :: "node list \<Rightarrow> vid \<Rightarrow> node" where
  "node_of ns v = (if v < length ns then ns ! v else OtherValue)"

text \<open>
  \<^verbatim>\<open>Instruction.Operands(nil)\<close> of \<^verbatim>\<open>go/ssa\<close>: the operand slots of an instruction, in
  the order the library lists them (a call lists \<^verbatim>\<open>Call.Value\<close> before its arguments).
\<close>

fun Operands :: "node \<Rightarrow> vid option list" where
  "Operands (Call c fv args) = map Some (fv # args)"
| "Operands (Store addr val) = [Some addr, Some val]"
| "Operands (Return results) = map Some results"
| "Operands (UnOp x) = [Some x]"
| "Operands (FieldAddr x) = [Some x]"
| "Operands (IndexAddr x idx) = [Some x, Some idx]"
| "Operands (Phi edges) = map Some edges"
| "Operands (MakeInterface x) = [Some x]"
| "Operands Global = []"
| "Operands (OtherInstr ops) = ops"
| "Operands OtherValue = []"

section \<open>The analyzer's own data\<close>

record arenaInfo =
  arena_value :: vid

text \<open>
  \<open>allocPos\<close> is the printed position of the allocating call; a position is represented
  by the instruction it belongs to.
\<close>

record allocInfo =
  arena :: arenaInfo
  alloc_value :: vid
  allocPos :: vid

text \<open>The four maps filled by the first pass of \<^verbatim>\<open>checkFunctionFinal2\<close>.\<close>

record tracker =
  arenas :: "vid \<rightharpoonup> arenaInfo"
  allocations :: "vid \<rightharpoonup> allocInfo"
  storesTo :: "vid \<rightharpoonup> vid"
  freeInstrs :: "vid \<rightharpoonup> vid"

text \<open>
  A report of \<^verbatim>\<open>pass.Reportf\<close>: the instruction whose position is reported, and the
  allocation position put into the message.
\<close>

datatype diagnostic =
    EscapesViaReturn vid vid
  | UseAfterFree vid vid
  | EscapesToGlobal vid vid

section \<open>String matching\<close>

text \<open>\<^verbatim>\<open>strings.Contains\<close>: the second string occurs in the first as a contiguous run.\<close>

fun hasPrefix :: "string \<Rightarrow> string \<Rightarrow> bool" where
  "hasPrefix s [] = True"
| "hasPrefix [] (p # ps) = False"
| "hasPrefix (c # cs) (p # ps) = (c = p \<and> hasPrefix cs ps)"

fun Contains :: "string \<Rightarrow> string \<Rightarrow> bool" where
  "Contains [] substr = (substr = [])"
| "Contains (c # cs) substr = (hasPrefix (c # cs) substr \<or> Contains cs substr)"

text \<open>The recursion computes what the library documents: a substring test.\<close>

lemma hasPrefix_iff: "hasPrefix s p \<longleftrightarrow> (\<exists>q. s = p @ q)"
  by (induction s p rule: hasPrefix.induct) auto

lemma Contains_iff: "Contains s substr \<longleftrightarrow> (\<exists>p q. s = p @ substr @ q)"
proof (induction s)
  case Nil
  show ?case by auto
next
  case (Cons c cs)
  show ?case
  proof
    assume "Contains (c # cs) substr"
    then consider "hasPrefix (c # cs) substr" | "Contains cs substr" by auto
    then show "\<exists>p q. c # cs = p @ substr @ q"
    proof cases
      case 1
      then obtain q where "c # cs = substr @ q" unfolding hasPrefix_iff by blast
      then have "c # cs = [] @ substr @ q" by simp
      then show ?thesis by blast
    next
      case 2
      with Cons.IH obtain p q where "cs = p @ substr @ q" by blast
      then have "c # cs = (c # p) @ substr @ q" by simp
      then show ?thesis by blast
    qed
  next
    assume "\<exists>p q. c # cs = p @ substr @ q"
    then obtain p q where pq: "c # cs = p @ substr @ q" by blast
    show "Contains (c # cs) substr"
    proof (cases p)
      case Nil
      with pq have "hasPrefix (c # cs) substr" unfolding hasPrefix_iff by auto
      then show ?thesis by simp
    next
      case (Cons c' p')
      with pq have "cs = p' @ substr @ q" by simp
      with Cons.IH have "Contains cs substr" by blast
      then show ?thesis by simp
    qed
  qed
qed

section \<open>Provenance resolution\<close>

text \<open>
  \<^verbatim>\<open>findAllocationRec\<close>. The Go function mutates the shared \<^verbatim>\<open>visited\<close> map; the model
  returns the map after the call together with the result. The loop over the edges of a
  \<open>Phi\<close> is \<open>findAllocationEdges\<close>.
\<close>

function findAllocationRec ::
    "node list \<Rightarrow> (vid \<rightharpoonup> allocInfo) \<Rightarrow> (vid \<rightharpoonup> vid) \<Rightarrow> vid \<Rightarrow> vid set
       \<Rightarrow> allocInfo option \<times> vid set"
  and findAllocationEdges ::
    "node list \<Rightarrow> (vid \<rightharpoonup> allocInfo) \<Rightarrow> (vid \<rightharpoonup> vid) \<Rightarrow> vid list \<Rightarrow> vid set
       \<Rightarrow> allocInfo option \<times> vid set"
where
  "findAllocationRec ns allocs stores val visited =
     (if val \<in> visited then (None, visited)
      else
        (case allocs val of
           Some alloc \<Rightarrow> (Some alloc, insert val visited)
         | None \<Rightarrow>
            (case node_of ns val of
               UnOp operand \<Rightarrow>
                 (case stores operand of
                    Some stored \<Rightarrow>
                      (case findAllocationRec ns allocs stores stored (insert val visited) of
                         (Some alloc, visited') \<Rightarrow> (Some alloc, visited')
                       | (None, visited') \<Rightarrow>
                           findAllocationRec ns allocs stores operand visited')
                  | None \<Rightarrow>
                      findAllocationRec ns allocs stores operand (insert val visited))
             | FieldAddr x \<Rightarrow> findAllocationRec ns allocs stores x (insert val visited)
             | IndexAddr x idx \<Rightarrow> findAllocationRec ns allocs stores x (insert val visited)
             | Phi edges \<Rightarrow> findAllocationEdges ns allocs stores edges (insert val visited)
             | MakeInterface x \<Rightarrow> findAllocationRec ns allocs stores x (insert val visited)
             | _ \<Rightarrow> (None, insert val visited))))"
| "findAllocationEdges ns allocs stores [] visited = (None, visited)"
| "findAllocationEdges ns allocs stores (edge # edges) visited =
     (case findAllocationRec ns allocs stores edge visited of
        (Some alloc, visited') \<Rightarrow> (Some alloc, visited')
      | (None, visited') \<Rightarrow> findAllocationEdges ns allocs stores edges visited')"
  by pat_completeness auto

lemma visited_grows_dom:
  "findAllocationRec_findAllocationEdges_dom (Inl (ns, al, st, v, V)) \<Longrightarrow>
     V \<subseteq> snd (findAllocationRec ns al st v V)"
  "findAllocationRec_findAllocationEdges_dom (Inr (ns, al, st, es, V)) \<Longrightarrow>
     V \<subseteq> snd (findAllocationEdges ns al st es V)"
proof (induct ns al st v V and ns al st es V rule: findAllocationRec_findAllocationEdges.pinduct)
  case (1 ns al st v V)
  note dom = "1.hyps"(1)
  show ?case
  proof (cases "v \<in> V")
    case True
    then show ?thesis by (simp add: findAllocationRec.psimps[OF dom])
  next
    case nv: False
    show ?thesis
    proof (cases "al v")
      case (Some a)
      with nv show ?thesis by (auto simp add: findAllocationRec.psimps[OF dom])
    next
      case None
      show ?thesis
      proof (cases "node_of ns v")
        case (UnOp x)
        show ?thesis
        proof (cases "st x")
          case stN: None
          from "1.hyps"(2)[OF nv None UnOp stN] nv None UnOp stN
          show ?thesis by (auto simp add: findAllocationRec.psimps[OF dom])
        next
          case (Some s)
          obtain r V1 where r: "findAllocationRec ns al st s (insert v V) = (r, V1)"
            by (cases "findAllocationRec ns al st s (insert v V)")
          from "1.hyps"(3)[OF nv None UnOp Some] r have sub1: "insert v V \<subseteq> V1" by simp
          show ?thesis
          proof (cases r)
            case rN: None
            from "1.hyps"(4)[OF nv None UnOp Some r[symmetric] rN]
            have "V1 \<subseteq> snd (findAllocationRec ns al st x V1)" .
            with sub1 nv None UnOp Some r rN show ?thesis
              by (auto simp add: findAllocationRec.psimps[OF dom])
          next
            case (Some a)
            with sub1 nv None UnOp \<open>st x = Some s\<close> r show ?thesis
              by (auto simp add: findAllocationRec.psimps[OF dom])
          qed
        qed
      next
        case (FieldAddr x)
        from "1.hyps"(5)[OF nv None FieldAddr] nv None FieldAddr
        show ?thesis by (auto simp add: findAllocationRec.psimps[OF dom])
      next
        case (IndexAddr x i)
        from "1.hyps"(6)[OF nv None IndexAddr] nv None IndexAddr
        show ?thesis by (auto simp add: findAllocationRec.psimps[OF dom])
      next
        case (Phi es)
        from "1.hyps"(7)[OF nv None Phi] nv None Phi
        show ?thesis by (auto simp add: findAllocationRec.psimps[OF dom])
      next
        case (MakeInterface x)
        from "1.hyps"(8)[OF nv None MakeInterface] nv None MakeInterface
        show ?thesis by (auto simp add: findAllocationRec.psimps[OF dom])
      qed (use nv None in \<open>auto simp add: findAllocationRec.psimps[OF dom]\<close>)
    qed
  qed
next
  case (2 ns al st V)
  then show ?case by (simp add: findAllocationEdges.psimps)
next
  case (3 ns al st e es V)
  note dom = "3.hyps"(1)
  obtain r V1 where r: "findAllocationRec ns al st e V = (r, V1)"
    by (cases "findAllocationRec ns al st e V")
  from "3.hyps"(2) r have sub1: "V \<subseteq> V1" by simp
  show ?case
  proof (cases r)
    case None
    from "3.hyps"(3)[OF r[symmetric] None] sub1 r None show ?thesis
      by (auto simp add: findAllocationEdges.psimps(2)[OF dom])
  next
    case (Some a)
    with sub1 r show ?thesis by (auto simp add: findAllocationEdges.psimps(2)[OF dom])
  qed
qed

lemma node_of_in_range:
  "node_of ns v \<noteq> OtherValue \<Longrightarrow> v < length ns"
  by (simp add: node_of_def split: if_splits)

lemma unvisited_shrinks:
  assumes "v \<notin> V" and "v < length ns" and "insert v V \<subseteq> V'"
  shows "card ({..<length ns} - V') < card ({..<length ns} - V)"
proof (rule psubset_card_mono)
  show "finite ({..<length ns} - V)" by simp
  show "{..<length ns} - V' \<subset> {..<length ns} - V" using assms by auto
qed

lemma unvisited_mono:
  assumes "V \<subseteq> V'"
  shows "card ({..<length ns} - V') \<le> card ({..<length ns} - V)"
  by (rule card_mono) (use assms in auto)

text \<open>
  Every argument lies in the accessible part of the recursion relation: no chain of
  recursive calls is infinite, whatever cycles the value graph has. The measure is the
  number of table entries not yet visited, then the number of edges left to try.
\<close>

lemma findAllocationRec_total:
  "All findAllocationRec_findAllocationEdges_dom"
  apply (relation "inv_image (less_than <*lex*> less_than)
           (\<lambda>x. case x of
               Inl (ns, al, st, v, V) \<Rightarrow> (card ({..<length ns} - V), 0)
             | Inr (ns, al, st, es, V) \<Rightarrow> (card ({..<length ns} - V), Suc (length es)))")
  subgoal by auto
  subgoal for ns al st v V
    using unvisited_shrinks[of v V ns "insert v V"] node_of_in_range[of ns v] by simp
  subgoal for ns al st v V
    using unvisited_shrinks[of v V ns "insert v V"] node_of_in_range[of ns v] by simp
  subgoal for ns al st v V x s r V'
    using visited_grows_dom(1)[of ns al st s "insert v V"]
      unvisited_shrinks[of v V ns V'] node_of_in_range[of ns v]
    by (auto dest: sym)
  subgoal for ns al st v V
    using unvisited_shrinks[of v V ns "insert v V"] node_of_in_range[of ns v] by simp
  subgoal for ns al st v V
    using unvisited_shrinks[of v V ns "insert v V"] node_of_in_range[of ns v] by simp
  subgoal for ns al st v V
    using unvisited_shrinks[of v V ns "insert v V"] node_of_in_range[of ns v] by simp
  subgoal for ns al st v V
    using unvisited_shrinks[of v V ns "insert v V"] node_of_in_range[of ns v] by simp
  subgoal by simp
  subgoal for ns al st e es V r V'
    using visited_grows_dom(1)[of ns al st e V] unvisited_mono[of V V' ns]
    by (auto simp: le_less dest: sym)
  done

termination findAllocationRec
  by (rule findAllocationRec_total)

declare findAllocationRec.simps [simp del]

text \<open>\<^verbatim>\<open>findAllocation\<close>: resolution from a fresh, empty visited map.\<close>

definition findAllocation ::
    "node list \<Rightarrow> (vid \<rightharpoonup> allocInfo) \<Rightarrow> (vid \<rightharpoonup> vid) \<Rightarrow> vid \<Rightarrow> allocInfo option" where
  "findAllocation ns allocs stores val = fst (findAllocationRec ns allocs stores val {})"

text \<open>
  \<^verbatim>\<open>isPointerType\<close>: the type switch has the cases \<^verbatim>\<open>*types.Pointer\<close> and
  \<^verbatim>\<open>*types.Named\<close>; every other type leaves the switch and gives \<^verbatim>\<open>false\<close>.
\<close>

fun isPointerType :: "gtype \<Rightarrow> bool" where
  "isPointerType (Pointer elem) = True"
| "isPointerType (Named underlying) = isPointerType underlying"
| "isPointerType (Alias aliased) = False"
| "isPointerType Interface = False"
| "isPointerType OtherType = False"

definition isGlobalVar :: "node list \<Rightarrow> vid \<Rightarrow> bool" where
  "isGlobalVar ns val = (case node_of ns val of Global \<Rightarrow> True | _ \<Rightarrow> False)"

section \<open>First pass: regions, allocations, stores and releases\<close>

text \<open>
  The body of the first loop of \<^verbatim>\<open>checkFunctionFinal2\<close> for a call with a static callee:
  the three \<^verbatim>\<open>if\<close> statements run in sequence on the same maps.
\<close>

definition trackCall :: "vid \<Rightarrow> callee \<Rightarrow> vid list \<Rightarrow> tracker \<Rightarrow> tracker" where
  "trackCall call c args t =
     (let t1 = (if Contains (fullName c) ''arena.NewArena''
                then t\<lparr>arenas := (arenas t)(call \<mapsto> \<lparr>arena_value = call\<rparr>)\<rparr>
                else t);
          t2 = (if Contains (fullName c) ''arena.New['' \<and> args \<noteq> []
                then (case arenas t1 (hd args) of
                        Some ai \<Rightarrow>
                          t1\<lparr>allocations := (allocations t1)
                               (call \<mapsto> \<lparr>arena = ai, alloc_value = call, allocPos = call\<rparr>)\<rparr>
                      | None \<Rightarrow> t1)
                else t1);
          t3 = (if Contains (fullName c) ''.Free'' \<or> (shortName c = ''Free'' \<and> args \<noteq> [])
                then (if args \<noteq> []
                      then (case arenas t2 (hd args) of
                              Some ai \<Rightarrow> t2\<lparr>freeInstrs := (freeInstrs t2)(call \<mapsto> hd args)\<rparr>
                            | None \<Rightarrow> t2)
                      else t2)
                else t2)
      in t3)"

definition trackInstr :: "node list \<Rightarrow> vid \<Rightarrow> tracker \<Rightarrow> tracker" where
  "trackInstr ns instr t =
     (case node_of ns instr of
        Call (Some c) fv args \<Rightarrow> trackCall instr c args t
      | Call None fv args \<Rightarrow> t
      | Store addr val \<Rightarrow> t\<lparr>storesTo := (storesTo t)(addr \<mapsto> val)\<rparr>
      | _ \<Rightarrow> t)"

definition emptyTracker :: tracker where
  "emptyTracker =
     \<lparr>arenas = Map.empty, allocations = Map.empty, storesTo = Map.empty,
      freeInstrs = Map.empty\<rparr>"

definition firstPass :: "node list \<Rightarrow> vid list list \<Rightarrow> tracker" where
  "firstPass ns blocks =
     fold (\<lambda>block t. fold (trackInstr ns) block t) blocks emptyTracker"

section \<open>Second pass: use after free, returns and global stores\<close>

text \<open>
  \<^verbatim>\<open>checkUseAfterFree\<close>: the loop over the operand slots; a nil slot is skipped, the
  first operand whose allocation belongs to a freed arena is reported and ends the loop.
\<close>

fun checkOperands ::
    "node list \<Rightarrow> tracker \<Rightarrow> vid set \<Rightarrow> vid \<Rightarrow> vid option list \<Rightarrow> diagnostic list" where
  "checkOperands ns t freedArenas instr [] = []"
| "checkOperands ns t freedArenas instr (None # rest) =
     checkOperands ns t freedArenas instr rest"
| "checkOperands ns t freedArenas instr (Some operand # rest) =
     (case findAllocation ns (allocations t) (storesTo t) operand of
        Some alloc \<Rightarrow>
          (if arena_value (arena alloc) \<in> freedArenas
           then [UseAfterFree instr (allocPos alloc)]
           else checkOperands ns t freedArenas instr rest)
      | None \<Rightarrow> checkOperands ns t freedArenas instr rest)"

definition checkUseAfterFree ::
    "node list \<Rightarrow> tracker \<Rightarrow> vid set \<Rightarrow> vid \<Rightarrow> diagnostic list" where
  "checkUseAfterFree ns t freedArenas instr =
     checkOperands ns t freedArenas instr (Operands (node_of ns instr))"

text \<open>The body of the loop over \<^verbatim>\<open>ret.Results\<close>.\<close>

definition checkResult :: "ssa_function \<Rightarrow> tracker \<Rightarrow> vid \<Rightarrow> vid \<Rightarrow> diagnostic list" where
  "checkResult fn t ret result =
     (case findAllocation (nodes fn) (allocations t) (storesTo t) result of
        Some alloc \<Rightarrow>
          (if isPointerType (Type fn result) then [EscapesViaReturn ret (allocPos alloc)]
           else [])
      | None \<Rightarrow> [])"

definition checkReturn :: "ssa_function \<Rightarrow> tracker \<Rightarrow> vid \<Rightarrow> diagnostic list" where
  "checkReturn fn t instr =
     (case node_of (nodes fn) instr of
        Return results \<Rightarrow> concat (map (checkResult fn t instr) results)
      | _ \<Rightarrow> [])"

definition checkGlobalStore :: "ssa_function \<Rightarrow> tracker \<Rightarrow> vid \<Rightarrow> diagnostic list" where
  "checkGlobalStore fn t instr =
     (case node_of (nodes fn) instr of
        Store addr val \<Rightarrow>
          (if isGlobalVar (nodes fn) addr
           then (case findAllocation (nodes fn) (allocations t) (storesTo t) val of
                   Some alloc \<Rightarrow> [EscapesToGlobal instr (allocPos alloc)]
                 | None \<Rightarrow> [])
           else [])
      | _ \<Rightarrow> [])"

text \<open>
  The inner loop of the second pass over one block, from the current \<^verbatim>\<open>freedArenas\<close>:
  \<open>noteFree\<close> records a release, \<open>checkInstr\<close> is the rest of the loop body. The reports
  are listed in the order they are made.
\<close>

definition noteFree :: "tracker \<Rightarrow> vid \<Rightarrow> vid set \<Rightarrow> vid set" where
  "noteFree t instr freedArenas =
     (case freeInstrs t instr of
        Some a \<Rightarrow> insert a freedArenas
      | None \<Rightarrow> freedArenas)"

definition checkInstr :: "ssa_function \<Rightarrow> tracker \<Rightarrow> vid set \<Rightarrow> vid \<Rightarrow> diagnostic list" where
  "checkInstr fn t freedArenas instr =
     (if freedArenas \<noteq> {} then checkUseAfterFree (nodes fn) t freedArenas instr else [])
     @ checkReturn fn t instr
     @ checkGlobalStore fn t instr"

fun sweepBlock :: "ssa_function \<Rightarrow> tracker \<Rightarrow> vid set \<Rightarrow> vid list \<Rightarrow> diagnostic list" where
  "sweepBlock fn t freedArenas [] = []"
| "sweepBlock fn t freedArenas (instr # rest) =
     (let freedArenas' = noteFree t instr freedArenas
      in checkInstr fn t freedArenas' instr @ sweepBlock fn t freedArenas' rest)"

definition blocks_of :: "ssa_function \<Rightarrow> vid list list" where
  "blocks_of fn = (case Blocks fn of None \<Rightarrow> [] | Some bs \<Rightarrow> bs)"

definition checkFunctionFinal2 :: "ssa_function \<Rightarrow> diagnostic list" where
  "checkFunctionFinal2 fn =
     (let t = firstPass (nodes fn) (blocks_of fn)
      in concat (map (sweepBlock fn t {}) (blocks_of fn)))"

text \<open>
  \<^verbatim>\<open>runFinal2\<close> over \<^verbatim>\<open>ssaProg.SrcFuncs\<close>; a nil function is \<open>None\<close>. The result is
  everything reported, in order.
\<close>

definition runFinal2 :: "ssa_function option list \<Rightarrow> diagnostic list" where
  "runFinal2 srcFuncs =
     concat (map (\<lambda>f. case f of
                         None \<Rightarrow> []
                       | Some fn \<Rightarrow> (if Blocks fn = None then [] else checkFunctionFinal2 fn))
                 srcFuncs)"

section \<open>The earlier analyzer\<close>

text \<open>
  \<^verbatim>\<open>cmd/arenacheck/analyzer.go\<close> holds an earlier analyzer, \<^verbatim>\<open>checkFunctionFinal\<close>. Its
  first pass keeps the set \<^verbatim>\<open>arenas\<close> and the map \<^verbatim>\<open>allocToArena\<close> from an allocating call
  to its arena argument.
\<close>

record tracker1 =
  arenas1 :: "vid set"
  allocToArena :: "vid \<rightharpoonup> vid"

definition trackCall1 :: "vid \<Rightarrow> callee \<Rightarrow> vid list \<Rightarrow> tracker1 \<Rightarrow> tracker1" where
  "trackCall1 call c args t =
     (let t1 = (if Contains (fullName c) ''arena.NewArena''
                then t\<lparr>arenas1 := insert call (arenas1 t)\<rparr>
                else t);
          t2 = (if Contains (fullName c) ''arena.New['' \<and> args \<noteq> []
                then t1\<lparr>allocToArena := (allocToArena t1)(call \<mapsto> hd args)\<rparr>
                else t1)
      in t2)"

definition trackInstr1 :: "node list \<Rightarrow> vid \<Rightarrow> tracker1 \<Rightarrow> tracker1" where
  "trackInstr1 ns instr t =
     (case node_of ns instr of
        Call (Some c) fv args \<Rightarrow> trackCall1 instr c args t
      | _ \<Rightarrow> t)"

definition firstPass1 :: "node list \<Rightarrow> vid list list \<Rightarrow> tracker1" where
  "firstPass1 ns blocks =
     fold (\<lambda>block t. fold (trackInstr1 ns) block t) blocks
       \<lparr>arenas1 = {}, allocToArena = Map.empty\<rparr>"

text \<open>
  \<^verbatim>\<open>tracesToArenaAlloc\<close> of the earlier analyzer, with the visited map threaded as in
  \<open>findAllocationRec\<close>; it has no store map and no case for \<^verbatim>\<open>MakeInterface\<close>.
\<close>

function tracesToArenaAlloc ::
    "node list \<Rightarrow> (vid \<rightharpoonup> vid) \<Rightarrow> vid \<Rightarrow> vid set \<Rightarrow> bool \<times> vid set"
  and tracesToArenaAllocEdges ::
    "node list \<Rightarrow> (vid \<rightharpoonup> vid) \<Rightarrow> vid list \<Rightarrow> vid set \<Rightarrow> bool \<times> vid set"
where
  "tracesToArenaAlloc ns allocTo val visited =
     (if val \<in> visited then (False, visited)
      else
        (case allocTo val of
           Some a \<Rightarrow> (True, insert val visited)
         | None \<Rightarrow>
            (case node_of ns val of
               UnOp x \<Rightarrow> tracesToArenaAlloc ns allocTo x (insert val visited)
             | FieldAddr x \<Rightarrow> tracesToArenaAlloc ns allocTo x (insert val visited)
             | IndexAddr x idx \<Rightarrow> tracesToArenaAlloc ns allocTo x (insert val visited)
             | Phi edges \<Rightarrow> tracesToArenaAllocEdges ns allocTo edges (insert val visited)
             | _ \<Rightarrow> (False, insert val visited))))"
| "tracesToArenaAllocEdges ns allocTo [] visited = (False, visited)"
| "tracesToArenaAllocEdges ns allocTo (edge # edges) visited =
     (case tracesToArenaAlloc ns allocTo edge visited of
        (found, visited') \<Rightarrow>
          if found then (True, visited')
          else tracesToArenaAllocEdges ns allocTo edges visited')"
  by pat_completeness auto

lemma traces_visited_grows_dom:
  "tracesToArenaAlloc_tracesToArenaAllocEdges_dom (Inl (ns, al, v, V)) \<Longrightarrow>
     V \<subseteq> snd (tracesToArenaAlloc ns al v V)"
  "tracesToArenaAlloc_tracesToArenaAllocEdges_dom (Inr (ns, al, es, V)) \<Longrightarrow>
     V \<subseteq> snd (tracesToArenaAllocEdges ns al es V)"
proof (induct ns al v V and ns al es V
        rule: tracesToArenaAlloc_tracesToArenaAllocEdges.pinduct)
  case (1 ns al v V)
  note dom = "1.hyps"(1)
  show ?case
  proof (cases "v \<in> V")
    case True
    then show ?thesis by (simp add: tracesToArenaAlloc.psimps[OF dom])
  next
    case nv: False
    show ?thesis
    proof (cases "al v")
      case (Some a)
      with nv show ?thesis by (auto simp add: tracesToArenaAlloc.psimps[OF dom])
    next
      case None
      show ?thesis
      proof (cases "node_of ns v")
        case (UnOp x)
        from "1.hyps"(2)[OF nv None UnOp] nv None UnOp
        show ?thesis by (auto simp add: tracesToArenaAlloc.psimps[OF dom])
      next
        case (FieldAddr x)
        from "1.hyps"(3)[OF nv None FieldAddr] nv None FieldAddr
        show ?thesis by (auto simp add: tracesToArenaAlloc.psimps[OF dom])
      next
        case (IndexAddr x i)
        from "1.hyps"(4)[OF nv None IndexAddr] nv None IndexAddr
        show ?thesis by (auto simp add: tracesToArenaAlloc.psimps[OF dom])
      next
        case (Phi es)
        from "1.hyps"(5)[OF nv None Phi] nv None Phi
        show ?thesis by (auto simp add: tracesToArenaAlloc.psimps[OF dom])
      qed (use nv None in \<open>auto simp add: tracesToArenaAlloc.psimps[OF dom]\<close>)
    qed
  qed
next
  case (2 ns al V)
  then show ?case by (simp add: tracesToArenaAllocEdges.psimps)
next
  case (3 ns al e es V)
  note dom = "3.hyps"(1)
  obtain r V1 where r: "tracesToArenaAlloc ns al e V = (r, V1)"
    by (cases "tracesToArenaAlloc ns al e V")
  from "3.hyps"(2) r have sub1: "V \<subseteq> V1" by simp
  show ?case
  proof (cases r)
    case False
    from "3.hyps"(3)[OF r[symmetric] False] sub1 r False show ?thesis
      by (auto simp add: tracesToArenaAllocEdges.psimps(2)[OF dom])
  next
    case True
    with sub1 r show ?thesis by (auto simp add: tracesToArenaAllocEdges.psimps(2)[OF dom])
  qed
qed

lemma tracesToArenaAlloc_total:
  "All tracesToArenaAlloc_tracesToArenaAllocEdges_dom"
  apply (relation "inv_image (less_than <*lex*> less_than)
           (\<lambda>x. case x of
               Inl (ns, al, v, V) \<Rightarrow> (card ({..<length ns} - V), 0)
             | Inr (ns, al, es, V) \<Rightarrow> (card ({..<length ns} - V), Suc (length es)))")
  subgoal by auto
  subgoal for ns al v V
    using unvisited_shrinks[of v V ns "insert v V"] node_of_in_range[of ns v] by simp
  subgoal for ns al v V
    using unvisited_shrinks[of v V ns "insert v V"] node_of_in_range[of ns v] by simp
  subgoal for ns al v V
    using unvisited_shrinks[of v V ns "insert v V"] node_of_in_range[of ns v] by simp
  subgoal for ns al v V
    using unvisited_shrinks[of v V ns "insert v V"] node_of_in_range[of ns v] by simp
  subgoal by simp
  subgoal for ns al e es V r V'
    using traces_visited_grows_dom(1)[of ns al e V] unvisited_mono[of V V' ns]
    by (auto simp: le_less dest: sym)
  done

termination tracesToArenaAlloc
  by (rule tracesToArenaAlloc_total)

declare tracesToArenaAlloc.simps [simp del]

text \<open>\<^verbatim>\<open>escapesViaReturn\<close> and \<^verbatim>\<open>escapesViaStore\<close>; neither reads the \<^verbatim>\<open>arenas\<close> set.\<close>

definition escapesViaReturn :: "node list \<Rightarrow> tracker1 \<Rightarrow> vid \<Rightarrow> bool" where
  "escapesViaReturn ns t val =
     (case allocToArena t val of
        Some a \<Rightarrow> True
      | None \<Rightarrow> fst (tracesToArenaAlloc ns (allocToArena t) val {}))"

definition escapesViaStore :: "node list \<Rightarrow> tracker1 \<Rightarrow> vid \<Rightarrow> bool" where
  "escapesViaStore ns t val =
     (case allocToArena t val of
        Some a \<Rightarrow> True
      | None \<Rightarrow> fst (tracesToArenaAlloc ns (allocToArena t) val {}))"

text \<open>The edges \<open>tracesToArenaAlloc\<close> follows, and reachability along them.\<close>

definition tracedEdges :: "node list \<Rightarrow> vid \<Rightarrow> vid list" where
  "tracedEdges ns val =
     (case node_of ns val of
        UnOp x \<Rightarrow> [x]
      | FieldAddr x \<Rightarrow> [x]
      | IndexAddr x idx \<Rightarrow> [x]
      | Phi edges \<Rightarrow> edges
      | _ \<Rightarrow> [])"

definition tracedFrom :: "node list \<Rightarrow> (vid \<times> vid) set" where
  "tracedFrom ns = {(v, w). w \<in> set (tracedEdges ns v)}\<^sup>*"

lemma tracedFrom_refl: "(v, v) \<in> tracedFrom ns"
  by (simp add: tracedFrom_def)

lemma tracedFrom_step:
  "e \<in> set (tracedEdges ns v) \<Longrightarrow> (e, w) \<in> tracedFrom ns \<Longrightarrow> (v, w) \<in> tracedFrom ns"
  unfolding tracedFrom_def by (rule converse_rtrancl_into_rtrancl) simp_all

lemma traces_sound_both:
  "(fst (tracesToArenaAlloc ns allocTo val visited) \<longrightarrow>
      (\<exists>w. (val, w) \<in> tracedFrom ns \<and> allocTo w \<noteq> None))"
  "(fst (tracesToArenaAllocEdges ns allocTo es visited) \<longrightarrow>
      (\<exists>e w. e \<in> set es \<and> (e, w) \<in> tracedFrom ns \<and> allocTo w \<noteq> None))"
proof (induct ns allocTo val visited and ns allocTo es visited
        rule: tracesToArenaAlloc_tracesToArenaAllocEdges.induct)
  case (1 ns allocTo val visited)
  show ?case
  proof
    assume found: "fst (tracesToArenaAlloc ns allocTo val visited)"
    show "\<exists>w. (val, w) \<in> tracedFrom ns \<and> allocTo w \<noteq> None"
    proof (cases "val \<in> visited")
      case True
      with found show ?thesis by (simp add: tracesToArenaAlloc.simps)
    next
      case nv: False
      show ?thesis
      proof (cases "allocTo val")
        case (Some a)
        then show ?thesis using tracedFrom_refl by blast
      next
        case None
        have via: "\<exists>w. (val, w) \<in> tracedFrom ns \<and> allocTo w \<noteq> None"
          if "x \<in> set (tracedEdges ns val)"
            and "\<exists>w. (x, w) \<in> tracedFrom ns \<and> allocTo w \<noteq> None" for x
          using that tracedFrom_step by blast
        show ?thesis
        proof (cases "node_of ns val")
          case (UnOp x)
          with found nv None have "fst (tracesToArenaAlloc ns allocTo x (insert val visited))"
            by (simp add: tracesToArenaAlloc.simps[of ns allocTo val])
          with "1.hyps"(1)[OF nv None UnOp] UnOp show ?thesis
            by (intro via[of x]) (simp_all add: tracedEdges_def)
        next
          case (FieldAddr x)
          with found nv None have "fst (tracesToArenaAlloc ns allocTo x (insert val visited))"
            by (simp add: tracesToArenaAlloc.simps[of ns allocTo val])
          with "1.hyps"(2)[OF nv None FieldAddr] FieldAddr show ?thesis
            by (intro via[of x]) (simp_all add: tracedEdges_def)
        next
          case (IndexAddr x i)
          with found nv None have "fst (tracesToArenaAlloc ns allocTo x (insert val visited))"
            by (simp add: tracesToArenaAlloc.simps[of ns allocTo val])
          with "1.hyps"(3)[OF nv None IndexAddr] IndexAddr show ?thesis
            by (intro via[of x]) (simp_all add: tracedEdges_def)
        next
          case (Phi es)
          with found nv None
          have "fst (tracesToArenaAllocEdges ns allocTo es (insert val visited))"
            by (simp add: tracesToArenaAlloc.simps[of ns allocTo val])
          with "1.hyps"(4)[OF nv None Phi] obtain e w where "e \<in> set es"
            "(e, w) \<in> tracedFrom ns" "allocTo w \<noteq> None" by blast
          with Phi show ?thesis by (intro via[of e]) (auto simp: tracedEdges_def)
        qed (use found nv None in \<open>simp_all add: tracesToArenaAlloc.simps[of ns allocTo val]\<close>)
      qed
    qed
  qed
next
  case (2 ns allocTo visited)
  show ?case by simp
next
  case (3 ns allocTo e es visited)
  obtain r V1 where r: "tracesToArenaAlloc ns allocTo e visited = (r, V1)"
    by (cases "tracesToArenaAlloc ns allocTo e visited")
  show ?case
  proof
    assume found: "fst (tracesToArenaAllocEdges ns allocTo (e # es) visited)"
    show "\<exists>e' w. e' \<in> set (e # es) \<and> (e', w) \<in> tracedFrom ns \<and> allocTo w \<noteq> None"
    proof (cases r)
      case True
      with r "3.hyps"(1) show ?thesis by auto
    next
      case False
      with r found have "fst (tracesToArenaAllocEdges ns allocTo es V1)" by simp
      with "3.hyps"(2)[OF r[symmetric] False] show ?thesis by auto
    qed
  qed
qed

lemma traces_revisit:
  "val \<in> visited \<Longrightarrow> tracesToArenaAlloc ns allocTo val visited = (False, visited)"
  by (simp add: tracesToArenaAlloc.simps)

lemma traces_visited_grows:
  "visited \<subseteq> snd (tracesToArenaAlloc ns allocTo val visited)"
  using traces_visited_grows_dom(1) tracesToArenaAlloc_total by blast

lemma traces_marks:
  "val \<in> snd (tracesToArenaAlloc ns allocTo val visited)"
proof (cases "val \<in> visited")
  case True
  then show ?thesis by (simp add: traces_revisit)
next
  case False
  have g: "insert val visited \<subseteq> snd (tracesToArenaAlloc ns allocTo x (insert val visited))" for x
    by (rule traces_visited_grows)
  have h: "insert val visited \<subseteq> snd (tracesToArenaAllocEdges ns allocTo es (insert val visited))"
    for es
    using traces_visited_grows_dom(2) tracesToArenaAlloc_total by blast
  show ?thesis
  proof (cases "allocTo val")
    case (Some a)
    with False show ?thesis by (simp add: tracesToArenaAlloc.simps)
  next
    case None
    with False g h show ?thesis
      by (cases "node_of ns val") (auto simp: tracesToArenaAlloc.simps[of ns allocTo val])
  qed
qed

section \<open>What provenance resolution computes\<close>

text \<open>
  \<open>provenanceEdges\<close> lists, in the order the resolver tries them, the values the resolver
  moves to from a value that is not itself a tracked allocation. \<open>derivedFrom\<close> is
  reachability along these edges.
\<close>

definition provenanceEdges :: "node list \<Rightarrow> (vid \<rightharpoonup> vid) \<Rightarrow> vid \<Rightarrow> vid list" where
  "provenanceEdges ns stores val =
     (case node_of ns val of
        UnOp operand \<Rightarrow>
          (case stores operand of Some stored \<Rightarrow> [stored, operand] | None \<Rightarrow> [operand])
      | FieldAddr x \<Rightarrow> [x]
      | IndexAddr x idx \<Rightarrow> [x]
      | Phi edges \<Rightarrow> edges
      | MakeInterface x \<Rightarrow> [x]
      | _ \<Rightarrow> [])"

definition derivedFrom :: "node list \<Rightarrow> (vid \<rightharpoonup> vid) \<Rightarrow> (vid \<times> vid) set" where
  "derivedFrom ns stores = {(v, w). w \<in> set (provenanceEdges ns stores v)}\<^sup>*"

lemma findAllocationEdges_single:
  "findAllocationEdges ns allocs stores [x] V = findAllocationRec ns allocs stores x V"
proof -
  obtain r V' where "findAllocationRec ns allocs stores x V = (r, V')"
    by (cases "findAllocationRec ns allocs stores x V")
  then show ?thesis by (cases r) simp_all
qed

lemma findAllocationEdges_pair:
  "findAllocationEdges ns allocs stores [s, x] V =
     (case findAllocationRec ns allocs stores s V of
        (Some alloc, V') \<Rightarrow> (Some alloc, V')
      | (None, V') \<Rightarrow> findAllocationRec ns allocs stores x V')"
  by (simp only: findAllocationEdges.simps(2)[of _ _ _ s "[x]"] findAllocationEdges_single)

lemma findAllocationRec_edges:
  "findAllocationRec ns allocs stores val visited =
     (if val \<in> visited then (None, visited)
      else (case allocs val of
              Some alloc \<Rightarrow> (Some alloc, insert val visited)
            | None \<Rightarrow>
                findAllocationEdges ns allocs stores (provenanceEdges ns stores val)
                  (insert val visited)))"
  by (subst findAllocationRec.simps)
     (simp add: provenanceEdges_def findAllocationEdges_single findAllocationEdges_pair
           split: option.splits node.splits del: findAllocationEdges.simps(2))

lemma resolver_induct [case_names resolve no_edges next_edge]:
  assumes resolve: "\<And>val visited.
            (val \<notin> visited \<Longrightarrow> allocs val = None \<Longrightarrow>
               Q (provenanceEdges ns stores val) (insert val visited)) \<Longrightarrow> P val visited"
      and no_edges: "\<And>visited. Q [] visited"
      and edge: "\<And>e es visited.
            P e visited \<Longrightarrow>
            (\<And>visited'. findAllocationRec ns allocs stores e visited = (None, visited')
                \<Longrightarrow> Q es visited') \<Longrightarrow> Q (e # es) visited"
  shows "P val visited" and "Q es visited"
proof (induct ns' \<equiv> ns allocs' \<equiv> allocs stores' \<equiv> stores val visited
         and ns' \<equiv> ns allocs' \<equiv> allocs stores' \<equiv> stores es visited
        rule: findAllocationRec_findAllocationEdges.induct)
  case (1 val visited)
  show ?case
  proof (rule resolve)
    assume nv: "val \<notin> visited" and na: "allocs val = None"
    show "Q (provenanceEdges ns stores val) (insert val visited)"
    proof (cases "node_of ns val")
      case (UnOp x)
      show ?thesis
      proof (cases "stores x")
        case None
        have "P x (insert val visited)" by (rule "1.hyps"(1)[OF nv na UnOp None])
        then have "Q [x] (insert val visited)" by (rule edge) (rule no_edges)
        with UnOp None show ?thesis by (simp add: provenanceEdges_def)
      next
        case (Some s)
        have ps: "P s (insert val visited)" by (rule "1.hyps"(2)[OF nv na UnOp Some])
        have "Q [s, x] (insert val visited)"
        proof (rule edge)
          show "P s (insert val visited)" by (rule ps)
          show "Q [x] V'"
            if "findAllocationRec ns allocs stores s (insert val visited) = (None, V')" for V'
          proof -
            have "P x V'" by (rule "1.hyps"(3)[OF nv na UnOp Some that[symmetric] refl])
            then show ?thesis by (rule edge) (rule no_edges)
          qed
        qed
        with UnOp Some show ?thesis by (simp add: provenanceEdges_def)
      qed
    next
      case (FieldAddr x)
      have "P x (insert val visited)" by (rule "1.hyps"(4)[OF nv na FieldAddr])
      then have "Q [x] (insert val visited)" by (rule edge) (rule no_edges)
      with FieldAddr show ?thesis by (simp add: provenanceEdges_def)
    next
      case (IndexAddr x i)
      have "P x (insert val visited)" by (rule "1.hyps"(5)[OF nv na IndexAddr])
      then have "Q [x] (insert val visited)" by (rule edge) (rule no_edges)
      with IndexAddr show ?thesis by (simp add: provenanceEdges_def)
    next
      case (Phi es)
      have "Q es (insert val visited)" by (rule "1.hyps"(6)[OF nv na Phi])
      with Phi show ?thesis by (simp add: provenanceEdges_def)
    next
      case (MakeInterface x)
      have "P x (insert val visited)" by (rule "1.hyps"(7)[OF nv na MakeInterface])
      then have "Q [x] (insert val visited)" by (rule edge) (rule no_edges)
      with MakeInterface show ?thesis by (simp add: provenanceEdges_def)
    qed (simp_all add: provenanceEdges_def no_edges)
  qed
next
  case (2 visited)
  show ?case by (rule no_edges)
next
  case (3 e es visited)
  show ?case
  proof (rule edge)
    show "P e visited" by (rule "3.hyps"(1))
    show "Q es V'" if "findAllocationRec ns allocs stores e visited = (None, V')" for V'
      by (rule "3.hyps"(2)[OF that[symmetric] refl])
  qed
qed

lemma resolver_induct_both:
  assumes "\<And>val visited.
            (val \<notin> visited \<Longrightarrow> allocs val = None \<Longrightarrow>
               Q (provenanceEdges ns stores val) (insert val visited)) \<Longrightarrow> P val visited"
      and "\<And>visited. Q [] visited"
      and "\<And>e es visited.
            P e visited \<Longrightarrow>
            (\<And>visited'. findAllocationRec ns allocs stores e visited = (None, visited')
                \<Longrightarrow> Q es visited') \<Longrightarrow> Q (e # es) visited"
  shows "P val visited \<and> Q es visited"
proof
  show "P val visited"
    by (rule resolver_induct(1)[where P = P and Q = Q and ns = ns and allocs = allocs
          and stores = stores]) (fact assms)+
  show "Q es visited"
    by (rule resolver_induct(2)[where P = P and Q = Q and ns = ns and allocs = allocs
          and stores = stores]) (fact assms)+
qed

lemma visited_both:
  "(visited \<subseteq> snd (findAllocationRec ns allocs stores val visited)
      \<and> val \<in> snd (findAllocationRec ns allocs stores val visited))
   \<and> visited \<subseteq> snd (findAllocationEdges ns allocs stores es visited)"
proof (rule resolver_induct_both[where ns = ns and allocs = allocs and stores = stores
         and P = "\<lambda>val visited. visited \<subseteq> snd (findAllocationRec ns allocs stores val visited)
                    \<and> val \<in> snd (findAllocationRec ns allocs stores val visited)"
         and Q = "\<lambda>es visited. visited \<subseteq> snd (findAllocationEdges ns allocs stores es visited)"])
  fix val visited
  assume "val \<notin> visited \<Longrightarrow> allocs val = None \<Longrightarrow>
     insert val visited \<subseteq> snd (findAllocationEdges ns allocs stores
        (provenanceEdges ns stores val) (insert val visited))"
  then show "visited \<subseteq> snd (findAllocationRec ns allocs stores val visited)
      \<and> val \<in> snd (findAllocationRec ns allocs stores val visited)"
    by (subst (1 2) findAllocationRec_edges) (auto split: option.splits)
next
  fix visited :: "vid set"
  show "visited \<subseteq> snd (findAllocationEdges ns allocs stores [] visited)" by simp
next
  fix e es visited
  assume p: "visited \<subseteq> snd (findAllocationRec ns allocs stores e visited)
      \<and> e \<in> snd (findAllocationRec ns allocs stores e visited)"
    and q: "\<And>visited'. findAllocationRec ns allocs stores e visited = (None, visited') \<Longrightarrow>
      visited' \<subseteq> snd (findAllocationEdges ns allocs stores es visited')"
  obtain r V1 where r: "findAllocationRec ns allocs stores e visited = (r, V1)"
    by (cases "findAllocationRec ns allocs stores e visited")
  show "visited \<subseteq> snd (findAllocationEdges ns allocs stores (e # es) visited)"
  proof (cases r)
    case None
    with p q[of V1] r show ?thesis by auto
  next
    case (Some a)
    with p r show ?thesis by auto
  qed
qed

lemma visited_grows:
  "visited \<subseteq> snd (findAllocationRec ns allocs stores val visited)"
  using visited_both[of visited ns allocs stores val] by simp

lemma visited_marks:
  "val \<in> snd (findAllocationRec ns allocs stores val visited)"
  using visited_both[of visited ns allocs stores val] by simp

lemma derivedFrom_refl: "(v, v) \<in> derivedFrom ns stores"
  by (simp add: derivedFrom_def)

lemma derivedFrom_step:
  "e \<in> set (provenanceEdges ns stores v) \<Longrightarrow> (e, w) \<in> derivedFrom ns stores
     \<Longrightarrow> (v, w) \<in> derivedFrom ns stores"
  unfolding derivedFrom_def by (rule converse_rtrancl_into_rtrancl) simp_all

lemma sound_both:
  "(\<forall>a V'. findAllocationRec ns allocs stores val visited = (Some a, V') \<longrightarrow>
       (\<exists>w. (val, w) \<in> derivedFrom ns stores \<and> allocs w = Some a))
   \<and> (\<forall>a V'. findAllocationEdges ns allocs stores es visited = (Some a, V') \<longrightarrow>
       (\<exists>e w. e \<in> set es \<and> (e, w) \<in> derivedFrom ns stores \<and> allocs w = Some a))"
proof (rule resolver_induct_both[where ns = ns and allocs = allocs and stores = stores
         and P = "\<lambda>val visited.
                   \<forall>a V'. findAllocationRec ns allocs stores val visited = (Some a, V') \<longrightarrow>
                     (\<exists>w. (val, w) \<in> derivedFrom ns stores \<and> allocs w = Some a)"
         and Q = "\<lambda>es visited.
                   \<forall>a V'. findAllocationEdges ns allocs stores es visited = (Some a, V') \<longrightarrow>
                     (\<exists>e w. e \<in> set es \<and> (e, w) \<in> derivedFrom ns stores
                        \<and> allocs w = Some a)"])
  fix val visited
  assume q: "val \<notin> visited \<Longrightarrow> allocs val = None \<Longrightarrow>
     \<forall>a V'. findAllocationEdges ns allocs stores (provenanceEdges ns stores val)
               (insert val visited) = (Some a, V') \<longrightarrow>
       (\<exists>e w. e \<in> set (provenanceEdges ns stores val) \<and> (e, w) \<in> derivedFrom ns stores
              \<and> allocs w = Some a)"
  show "\<forall>a V'. findAllocationRec ns allocs stores val visited = (Some a, V') \<longrightarrow>
       (\<exists>w. (val, w) \<in> derivedFrom ns stores \<and> allocs w = Some a)"
  proof (intro allI impI)
    fix a V'
    assume res: "findAllocationRec ns allocs stores val visited = (Some a, V')"
    show "\<exists>w. (val, w) \<in> derivedFrom ns stores \<and> allocs w = Some a"
    proof (cases "val \<in> visited")
      case True
      with res show ?thesis by (simp add: findAllocationRec_edges)
    next
      case nv: False
      show ?thesis
      proof (cases "allocs val")
        case (Some b)
        with nv res have "b = a" by (simp add: findAllocationRec_edges)
        with Some show ?thesis using derivedFrom_refl by blast
      next
        case None
        with nv res have "findAllocationEdges ns allocs stores (provenanceEdges ns stores val)
               (insert val visited) = (Some a, V')"
          by (simp add: findAllocationRec_edges)
        with q[OF nv None] obtain e w where "e \<in> set (provenanceEdges ns stores val)"
          "(e, w) \<in> derivedFrom ns stores" "allocs w = Some a" by blast
        then show ?thesis using derivedFrom_step by blast
      qed
    qed
  qed
next
  fix visited :: "vid set"
  show "\<forall>a V'. findAllocationEdges ns allocs stores [] visited = (Some a, V') \<longrightarrow>
       (\<exists>e w. e \<in> set [] \<and> (e, w) \<in> derivedFrom ns stores \<and> allocs w = Some a)"
    by simp
next
  fix e es visited
  assume p: "\<forall>a V'. findAllocationRec ns allocs stores e visited = (Some a, V') \<longrightarrow>
       (\<exists>w. (e, w) \<in> derivedFrom ns stores \<and> allocs w = Some a)"
    and q: "\<And>visited'. findAllocationRec ns allocs stores e visited = (None, visited') \<Longrightarrow>
       \<forall>a V'. findAllocationEdges ns allocs stores es visited' = (Some a, V') \<longrightarrow>
       (\<exists>e w. e \<in> set es \<and> (e, w) \<in> derivedFrom ns stores \<and> allocs w = Some a)"
  obtain r V1 where r: "findAllocationRec ns allocs stores e visited = (r, V1)"
    by (cases "findAllocationRec ns allocs stores e visited")
  show "\<forall>a V'. findAllocationEdges ns allocs stores (e # es) visited = (Some a, V') \<longrightarrow>
       (\<exists>e' w. e' \<in> set (e # es) \<and> (e', w) \<in> derivedFrom ns stores \<and> allocs w = Some a)"
  proof (intro allI impI)
    fix a V'
    assume res: "findAllocationEdges ns allocs stores (e # es) visited = (Some a, V')"
    show "\<exists>e' w. e' \<in> set (e # es) \<and> (e', w) \<in> derivedFrom ns stores \<and> allocs w = Some a"
    proof (cases r)
      case None
      with r res have "findAllocationEdges ns allocs stores es V1 = (Some a, V')" by simp
      with q[of V1] r None obtain e' w where "e' \<in> set es" "(e', w) \<in> derivedFrom ns stores"
        "allocs w = Some a" by blast
      then show ?thesis by auto
    next
      case (Some b)
      with r res have "b = a" by simp
      with p r Some obtain w where "(e, w) \<in> derivedFrom ns stores" "allocs w = Some a"
        by blast
      then show ?thesis by auto
    qed
  qed
qed

lemma findAllocationRec_sound:
  "findAllocationRec ns allocs stores val visited = (Some a, V') \<Longrightarrow>
     \<exists>w. (val, w) \<in> derivedFrom ns stores \<and> allocs w = Some a"
  using sound_both[of ns allocs stores val visited] by blast

text \<open>
  \<open>explored\<close>: between two states of the visited map of a search that found nothing,
  every value newly visited is no allocation and has all its edges visited.
\<close>

definition explored :: "node list \<Rightarrow> (vid \<rightharpoonup> allocInfo) \<Rightarrow> (vid \<rightharpoonup> vid) \<Rightarrow> vid set \<Rightarrow> vid set \<Rightarrow> bool" where
  "explored ns allocs stores visited visited' \<longleftrightarrow>
     visited \<subseteq> visited' \<and>
     (\<forall>u. u \<in> visited' \<and> u \<notin> visited \<longrightarrow>
          allocs u = None \<and> set (provenanceEdges ns stores u) \<subseteq> visited')"

lemma explored_refl: "explored ns allocs stores V V"
  by (simp add: explored_def)

lemma explored_trans:
  "explored ns allocs stores V V1 \<Longrightarrow> explored ns allocs stores V1 V2
     \<Longrightarrow> explored ns allocs stores V V2"
  unfolding explored_def by blast

lemma complete_both:
  "(\<forall>V'. findAllocationRec ns allocs stores val visited = (None, V') \<longrightarrow>
       val \<in> V' \<and> explored ns allocs stores visited V')
   \<and> (\<forall>V'. findAllocationEdges ns allocs stores es visited = (None, V') \<longrightarrow>
       set es \<subseteq> V' \<and> explored ns allocs stores visited V')"
proof (rule resolver_induct_both[where ns = ns and allocs = allocs and stores = stores
         and P = "\<lambda>val visited.
                   \<forall>V'. findAllocationRec ns allocs stores val visited = (None, V') \<longrightarrow>
                     val \<in> V' \<and> explored ns allocs stores visited V'"
         and Q = "\<lambda>es visited.
                   \<forall>V'. findAllocationEdges ns allocs stores es visited = (None, V') \<longrightarrow>
                     set es \<subseteq> V' \<and> explored ns allocs stores visited V'"])
  fix val visited
  assume q: "val \<notin> visited \<Longrightarrow> allocs val = None \<Longrightarrow>
     \<forall>V'. findAllocationEdges ns allocs stores (provenanceEdges ns stores val)
             (insert val visited) = (None, V') \<longrightarrow>
       set (provenanceEdges ns stores val) \<subseteq> V'
       \<and> explored ns allocs stores (insert val visited) V'"
  show "\<forall>V'. findAllocationRec ns allocs stores val visited = (None, V') \<longrightarrow>
           val \<in> V' \<and> explored ns allocs stores visited V'"
  proof (intro allI impI)
    fix V'
    assume res: "findAllocationRec ns allocs stores val visited = (None, V')"
    show "val \<in> V' \<and> explored ns allocs stores visited V'"
    proof (cases "val \<in> visited")
      case True
      with res have "V' = visited" by (simp add: findAllocationRec_edges)
      with True show ?thesis by (simp add: explored_refl)
    next
      case nv: False
      show ?thesis
      proof (cases "allocs val")
        case (Some b)
        with nv res show ?thesis by (simp add: findAllocationRec_edges)
      next
        case None
        with nv res have "findAllocationEdges ns allocs stores (provenanceEdges ns stores val)
               (insert val visited) = (None, V')"
          by (simp add: findAllocationRec_edges)
        with q[OF nv None] have e: "set (provenanceEdges ns stores val) \<subseteq> V'"
          and x: "explored ns allocs stores (insert val visited) V'" by blast+
        from x have "val \<in> V'" by (auto simp: explored_def)
        moreover from x e None have "explored ns allocs stores visited V'"
          unfolding explored_def by blast
        ultimately show ?thesis by simp
      qed
    qed
  qed
next
  fix visited :: "vid set"
  show "\<forall>V'. findAllocationEdges ns allocs stores [] visited = (None, V') \<longrightarrow>
           set [] \<subseteq> V' \<and> explored ns allocs stores visited V'"
    by (simp add: explored_refl)
next
  fix e es visited
  assume p: "\<forall>V'. findAllocationRec ns allocs stores e visited = (None, V') \<longrightarrow>
           e \<in> V' \<and> explored ns allocs stores visited V'"
    and q: "\<And>visited'. findAllocationRec ns allocs stores e visited = (None, visited') \<Longrightarrow>
       \<forall>V'. findAllocationEdges ns allocs stores es visited' = (None, V') \<longrightarrow>
           set es \<subseteq> V' \<and> explored ns allocs stores visited' V'"
  obtain r V1 where r: "findAllocationRec ns allocs stores e visited = (r, V1)"
    by (cases "findAllocationRec ns allocs stores e visited")
  show "\<forall>V'. findAllocationEdges ns allocs stores (e # es) visited = (None, V') \<longrightarrow>
           set (e # es) \<subseteq> V' \<and> explored ns allocs stores visited V'"
  proof (intro allI impI)
    fix V'
    assume res: "findAllocationEdges ns allocs stores (e # es) visited = (None, V')"
    show "set (e # es) \<subseteq> V' \<and> explored ns allocs stores visited V'"
    proof (cases r)
      case None
      with r res have es: "findAllocationEdges ns allocs stores es V1 = (None, V')" by simp
      from p r None have e1: "e \<in> V1" and x1: "explored ns allocs stores visited V1" by blast+
      from q[of V1] r None es have s2: "set es \<subseteq> V'"
        and x2: "explored ns allocs stores V1 V'" by blast+
      from x2 e1 have "e \<in> V'" by (auto simp: explored_def)
      with s2 explored_trans[OF x1 x2] show ?thesis by simp
    next
      case (Some b)
      with r res show ?thesis by simp
    qed
  qed
qed

lemma explored_closed:
  assumes "explored ns allocs stores {} V'" and "v \<in> V'" and "(v, w) \<in> derivedFrom ns stores"
  shows "w \<in> V' \<and> allocs w = None"
proof -
  from assms(3) have "(v, w) \<in> {(v, w). w \<in> set (provenanceEdges ns stores v)}\<^sup>*"
    by (simp add: derivedFrom_def)
  then have "w \<in> V'"
  proof (induction rule: rtrancl_induct)
    case base
    show ?case by (rule assms(2))
  next
    case (step y z)
    with assms(1) show ?case unfolding explored_def by blast
  qed
  with assms(1) show ?thesis unfolding explored_def by blast
qed

lemma findAllocation_complete:
  assumes "findAllocation ns allocs stores val = None" and "(val, w) \<in> derivedFrom ns stores"
  shows "allocs w = None"
proof -
  obtain r V' where r: "findAllocationRec ns allocs stores val {} = (r, V')"
    by (cases "findAllocationRec ns allocs stores val {}")
  with assms(1) have "r = None" by (simp add: findAllocation_def)
  with r complete_both[of ns allocs stores val "{}"] have "val \<in> V'"
    and "explored ns allocs stores {} V'" by blast+
  with assms(2) show ?thesis using explored_closed by blast
qed

lemma findAllocation_sound:
  assumes "findAllocation ns allocs stores val = Some a"
  shows "\<exists>w. (val, w) \<in> derivedFrom ns stores \<and> allocs w = Some a"
proof -
  obtain r V' where r: "findAllocationRec ns allocs stores val {} = (r, V')"
    by (cases "findAllocationRec ns allocs stores val {}")
  with assms have "findAllocationRec ns allocs stores val {} = (Some a, V')"
    by (simp add: findAllocation_def)
  then show ?thesis by (rule findAllocationRec_sound)
qed

lemma findAllocation_iff:
  "findAllocation ns allocs stores val \<noteq> None \<longleftrightarrow>
     (\<exists>w. (val, w) \<in> derivedFrom ns stores \<and> allocs w \<noteq> None)"
proof
  assume "findAllocation ns allocs stores val \<noteq> None"
  then obtain a where "findAllocation ns allocs stores val = Some a" by auto
  from findAllocation_sound[OF this] show "\<exists>w. (val, w) \<in> derivedFrom ns stores \<and> allocs w \<noteq> None"
    by auto
next
  assume "\<exists>w. (val, w) \<in> derivedFrom ns stores \<and> allocs w \<noteq> None"
  then obtain w where w: "(val, w) \<in> derivedFrom ns stores" "allocs w \<noteq> None" by blast
  show "findAllocation ns allocs stores val \<noteq> None"
  proof
    assume "findAllocation ns allocs stores val = None"
    from findAllocation_complete[OF this w(1)] w(2) show False by simp
  qed
qed

text \<open>
  The loop over a list of edges returns an allocation exactly when some edge resolves to
  it in the visited map left by the edges before it, all of which resolved to none.
\<close>

lemma edges_first_resolving:
  "findAllocationEdges ns allocs stores es visited = (Some alloc, visited') \<longleftrightarrow>
     (\<exists>i<length es.
         fst (findAllocationEdges ns allocs stores (take i es) visited) = None
       \<and> findAllocationRec ns allocs stores (es ! i)
            (snd (findAllocationEdges ns allocs stores (take i es) visited))
           = (Some alloc, visited'))"
proof -
  define R where "R = (\<lambda>es V i.
         fst (findAllocationEdges ns allocs stores (take i es) V) = None
       \<and> findAllocationRec ns allocs stores (es ! i)
            (snd (findAllocationEdges ns allocs stores (take i es) V))
           = (Some alloc, visited'))"
  have "findAllocationEdges ns allocs stores es visited = (Some alloc, visited') \<longleftrightarrow>
          (\<exists>i<length es. R es visited i)"
  proof (induction es arbitrary: visited)
    case Nil
    show ?case by simp
  next
    case (Cons e rest)
    obtain r V1 where r: "findAllocationRec ns allocs stores e visited = (r, V1)"
      by (cases "findAllocationRec ns allocs stores e visited")
    have split: "(\<exists>i<length (e # rest). R (e # rest) visited i)
                 \<longleftrightarrow> R (e # rest) visited 0 \<or> (\<exists>k<length rest. R (e # rest) visited (Suc k))"
      by (auto simp: less_Suc_eq_0_disj)
    show ?case
    proof (cases r)
      case None
      with r have s: "R (e # rest) visited (Suc k) \<longleftrightarrow> R rest V1 k" for k
        by (simp add: R_def)
      from None r have z: "\<not> R (e # rest) visited 0" by (simp add: R_def)
      from None r have "findAllocationEdges ns allocs stores (e # rest) visited
                        = findAllocationEdges ns allocs stores rest V1" by simp
      with Cons.IH[of V1] have "findAllocationEdges ns allocs stores (e # rest) visited
                        = (Some alloc, visited') \<longleftrightarrow> (\<exists>k<length rest. R rest V1 k)"
        by simp
      with z s split show ?thesis by blast
    next
      case (Some b)
      with r have s: "\<not> R (e # rest) visited (Suc k)" for k by (simp add: R_def)
      from Some r have z: "R (e # rest) visited 0 \<longleftrightarrow> (b = alloc \<and> V1 = visited')"
        by (simp add: R_def)
      from Some r have "findAllocationEdges ns allocs stores (e # rest) visited = (Some b, V1)"
        by simp
      then have "findAllocationEdges ns allocs stores (e # rest) visited
                        = (Some alloc, visited') \<longleftrightarrow> (b = alloc \<and> V1 = visited')"
        by simp
      with z s split show ?thesis by blast
    qed
  qed
  then show ?thesis by (simp add: R_def)
qed

section \<open>Reading the reports\<close>

text \<open>
  The three kinds of report and the instruction a report is attached to. \<open>flagged\<close> is the
  condition under which a returned result is reported, and \<open>returnReports\<close> lists the
  reports a return instruction owes to its flagged results, in the order of the results.
\<close>

fun isReturnReport :: "diagnostic \<Rightarrow> bool" where
  "isReturnReport (EscapesViaReturn at pos) = True"
| "isReturnReport (UseAfterFree at pos) = False"
| "isReturnReport (EscapesToGlobal at pos) = False"

fun isUseAfterFreeReport :: "diagnostic \<Rightarrow> bool" where
  "isUseAfterFreeReport (EscapesViaReturn at pos) = False"
| "isUseAfterFreeReport (UseAfterFree at pos) = True"
| "isUseAfterFreeReport (EscapesToGlobal at pos) = False"

fun isGlobalReport :: "diagnostic \<Rightarrow> bool" where
  "isGlobalReport (EscapesViaReturn at pos) = False"
| "isGlobalReport (UseAfterFree at pos) = False"
| "isGlobalReport (EscapesToGlobal at pos) = True"

fun reportedAt :: "diagnostic \<Rightarrow> vid" where
  "reportedAt (EscapesViaReturn at pos) = at"
| "reportedAt (UseAfterFree at pos) = at"
| "reportedAt (EscapesToGlobal at pos) = at"

definition flagged :: "ssa_function \<Rightarrow> tracker \<Rightarrow> vid \<Rightarrow> bool" where
  "flagged fn t result \<longleftrightarrow>
     findAllocation (nodes fn) (allocations t) (storesTo t) result \<noteq> None
     \<and> isPointerType (Type fn result)"

definition returnReports :: "ssa_function \<Rightarrow> tracker \<Rightarrow> vid \<Rightarrow> diagnostic list" where
  "returnReports fn t instr =
     (case node_of (nodes fn) instr of
        Return results \<Rightarrow>
          map (\<lambda>r. EscapesViaReturn instr
                     (allocPos (the (findAllocation (nodes fn) (allocations t) (storesTo t) r))))
              (filter (flagged fn t) results)
      | _ \<Rightarrow> [])"


subsection \<open>Every check reports its own kind only\<close>

lemma checkOperands_kind:
  "list_all (\<lambda>d. isUseAfterFreeReport d \<and> reportedAt d = instr) (checkOperands ns t F instr ops)"
  by (induction ns t F instr ops rule: checkOperands.induct) (simp_all split: option.splits)

lemma checkUseAfterFree_kind:
  "list_all (\<lambda>d. isUseAfterFreeReport d \<and> reportedAt d = instr) (checkUseAfterFree ns t F instr)"
  by (simp add: checkUseAfterFree_def checkOperands_kind)

lemma list_all_concat_map:
  "(\<And>x. list_all Q (f x)) \<Longrightarrow> list_all Q (concat (map f xs))"
  by (induction xs) simp_all

lemma checkResult_kind:
  "list_all (\<lambda>d. isReturnReport d \<and> reportedAt d = ret) (checkResult fn t ret r)"
  by (simp add: checkResult_def split: option.splits)

lemma checkReturn_kind:
  "list_all (\<lambda>d. isReturnReport d \<and> reportedAt d = instr) (checkReturn fn t instr)"
  by (simp add: checkReturn_def list_all_concat_map checkResult_kind split: node.splits)

lemma checkGlobalStore_kind:
  "list_all (\<lambda>d. isGlobalReport d \<and> reportedAt d = instr) (checkGlobalStore fn t instr)"
  by (simp add: checkGlobalStore_def split: node.splits option.splits)

lemma filter_none: "list_all Q xs \<Longrightarrow> (\<And>d. Q d \<Longrightarrow> \<not> P d) \<Longrightarrow> filter P xs = []"
  by (induction xs) simp_all

lemma filter_all: "list_all Q xs \<Longrightarrow> (\<And>d. Q d \<Longrightarrow> P d) \<Longrightarrow> filter P xs = xs"
  by (induction xs) simp_all

lemma return_not_others:
  "isReturnReport d \<Longrightarrow> \<not> isUseAfterFreeReport d \<and> \<not> isGlobalReport d"
  by (cases d) simp_all

lemma uaf_not_others:
  "isUseAfterFreeReport d \<Longrightarrow> \<not> isReturnReport d \<and> \<not> isGlobalReport d"
  by (cases d) simp_all

lemma global_not_others:
  "isGlobalReport d \<Longrightarrow> \<not> isReturnReport d \<and> \<not> isUseAfterFreeReport d"
  by (cases d) simp_all

lemma return_reports_checkInstr:
  "filter isReturnReport (checkInstr fn t F instr) = checkReturn fn t instr"
proof -
  have 1: "filter isReturnReport (checkUseAfterFree (nodes fn) t F instr) = []"
    by (rule filter_none[OF checkUseAfterFree_kind]) (simp add: uaf_not_others)
  have 2: "filter isReturnReport (checkReturn fn t instr) = checkReturn fn t instr"
    by (rule filter_all[OF checkReturn_kind]) simp
  have 3: "filter isReturnReport (checkGlobalStore fn t instr) = []"
    by (rule filter_none[OF checkGlobalStore_kind]) (simp add: global_not_others)
  show ?thesis by (simp add: checkInstr_def 1 2 3)
qed

lemma return_reports_sweepBlock:
  "filter isReturnReport (sweepBlock fn t F block) = concat (map (checkReturn fn t) block)"
  by (induction block arbitrary: F) (simp_all add: Let_def return_reports_checkInstr)

lemma global_reports_checkInstr:
  "filter isGlobalReport (checkInstr fn t F instr) = checkGlobalStore fn t instr"
proof -
  have 1: "filter isGlobalReport (checkUseAfterFree (nodes fn) t F instr) = []"
    by (rule filter_none[OF checkUseAfterFree_kind]) (simp add: uaf_not_others)
  have 2: "filter isGlobalReport (checkReturn fn t instr) = []"
    by (rule filter_none[OF checkReturn_kind]) (simp add: return_not_others)
  have 3: "filter isGlobalReport (checkGlobalStore fn t instr) = checkGlobalStore fn t instr"
    by (rule filter_all[OF checkGlobalStore_kind]) simp
  show ?thesis by (simp add: checkInstr_def 1 2 3)
qed

lemma global_reports_sweepBlock:
  "filter isGlobalReport (sweepBlock fn t F block) = concat (map (checkGlobalStore fn t) block)"
  by (induction block arbitrary: F) (simp_all add: Let_def global_reports_checkInstr)

lemma filter_concat_map:
  "filter P (concat (map f xs)) = concat (map (\<lambda>x. filter P (f x)) xs)"
  by (induction xs) auto

lemma concat_map_concat:
  "concat (map (\<lambda>b. concat (map f b)) bs) = concat (map f (concat bs))"
  by (induction bs) auto

lemma checkResult_flagged:
  "checkResult fn t ret =
     (\<lambda>r. if flagged fn t r
      then [EscapesViaReturn ret
              (allocPos (the (findAllocation (nodes fn) (allocations t) (storesTo t) r)))]
      else [])"
  by (rule ext) (auto simp: checkResult_def flagged_def split: option.splits)

lemma concat_map_if_singleton:
  "concat (map (\<lambda>x. if P x then [f x] else []) xs) = map f (filter P xs)"
  by (induction xs) auto

lemma checkReturn_returnReports: "checkReturn fn t instr = returnReports fn t instr"
  by (simp add: checkReturn_def returnReports_def checkResult_flagged concat_map_if_singleton
           split: node.splits)


section \<open>Escape via return\<close>

text \<open>
  What the return check does on every function: the escape-via-return reports are, in
  program order, one report for each result of each return instruction that
  \<open>findAllocation\<close> resolves to a tracked allocation and whose static type satisfies
  \<open>isPointerType\<close>. That test accepts \<^verbatim>\<open>*types.Pointer\<close> and a named type over one, and
  nothing else: it is narrower than "pointer or reference type", as the section on boxed
  and aliased pointers below shows.
\<close>

lemma return_escape_reports:
  "filter isReturnReport (checkFunctionFinal2 fn) =
     concat (map (returnReports fn (firstPass (nodes fn) (blocks_of fn))) (concat (blocks_of fn)))"
  by (simp add: checkFunctionFinal2_def Let_def filter_concat_map return_reports_sweepBlock
        concat_map_concat checkReturn_returnReports[abs_def])


section \<open>Concrete functions\<close>

text \<open>
  The callees of \<^verbatim>\<open>arena.NewArena()\<close>, \<^verbatim>\<open>arena.New[int](a)\<close> and \<^verbatim>\<open>a.Free()\<close> as
  \<^verbatim>\<open>go/ssa\<close> prints them, and the definitions to unfold when a concrete function is run.
\<close>

definition cNewArena :: callee where
  "cNewArena = \<lparr>fullName = ''arena.NewArena'', shortName = ''NewArena''\<rparr>"
definition cNew :: callee where
  "cNew = \<lparr>fullName = ''arena.New[int]'', shortName = ''New[int]''\<rparr>"
definition cFree :: callee where
  "cFree = \<lparr>fullName = ''(*arena.Arena).Free'', shortName = ''Free''\<rparr>"

lemmas analyzer_defs =
  checkFunctionFinal2_def blocks_of_def firstPass_def trackInstr_def trackCall_def
  emptyTracker_def node_of_def noteFree_def checkInstr_def checkUseAfterFree_def
  checkReturn_def checkResult_def checkGlobalStore_def isGlobalVar_def findAllocation_def
  findAllocationRec.simps cNewArena_def cNew_def cFree_def

text \<open>
  The scenarios of the specification: a direct return, a return through a local slot, the
  return of a loaded field of scalar type, a use after a release, and a store to a global.
\<close>

definition fnDirectReturn :: ssa_function where
  "fnDirectReturn =
     \<lparr>Blocks = Some [[2, 3, 4]],
      nodes = [OtherValue, OtherValue,
               Call (Some cNewArena) 0 [],
               Call (Some cNew) 1 [2],
               Return [3]],
      Type = (\<lambda>v. Pointer OtherType)\<rparr>"

definition fnViaLocal :: ssa_function where
  "fnViaLocal =
     \<lparr>Blocks = Some [[2, 3, 4, 5, 6, 7]],
      nodes = [OtherValue, OtherValue,
               OtherInstr [],
               Call (Some cNewArena) 0 [],
               Call (Some cNew) 1 [3],
               Store 2 4,
               UnOp 2,
               Return [6]],
      Type = (\<lambda>v. Pointer OtherType)\<rparr>"

definition fnValueReturn :: ssa_function where
  "fnValueReturn =
     \<lparr>Blocks = Some [[2, 3, 4, 5, 6]],
      nodes = [OtherValue, OtherValue,
               Call (Some cNewArena) 0 [],
               Call (Some cNew) 1 [2],
               FieldAddr 3,
               UnOp 4,
               Return [5]],
      Type = (\<lambda>v. if v = 5 then OtherType else Pointer OtherType)\<rparr>"

definition fnUseAfterFree :: ssa_function where
  "fnUseAfterFree =
     \<lparr>Blocks = Some [[3, 4, 5, 6, 7]],
      nodes = [OtherValue, OtherValue, OtherValue,
               Call (Some cNewArena) 0 [],
               Call (Some cNew) 1 [3],
               Call (Some cFree) 2 [3],
               OtherInstr [Some 4],
               Return []],
      Type = (\<lambda>v. Pointer OtherType)\<rparr>"

definition fnGlobalEscape :: ssa_function where
  "fnGlobalEscape =
     \<lparr>Blocks = Some [[3, 4, 5, 6]],
      nodes = [OtherValue, OtherValue,
               Global,
               Call (Some cNewArena) 0 [],
               Call (Some cNew) 1 [3],
               Store 2 4,
               Return []],
      Type = (\<lambda>v. Pointer OtherType)\<rparr>"

lemma scenario_direct_return: "checkFunctionFinal2 fnDirectReturn = [EscapesViaReturn 4 3]"
  by (simp add: fnDirectReturn_def analyzer_defs)

lemma scenario_return_via_local: "checkFunctionFinal2 fnViaLocal = [EscapesViaReturn 7 4]"
  by (simp add: fnViaLocal_def analyzer_defs)

lemma scenario_value_return: "checkFunctionFinal2 fnValueReturn = []"
  by (simp add: fnValueReturn_def analyzer_defs)

lemma scenario_use_after_free: "checkFunctionFinal2 fnUseAfterFree = [UseAfterFree 6 4]"
  by (simp add: fnUseAfterFree_def analyzer_defs)

lemma scenario_global_escape: "checkFunctionFinal2 fnGlobalEscape = [EscapesToGlobal 5 4]"
  by (simp add: fnGlobalEscape_def analyzer_defs)

text \<open>
  The return check on two of them: the returned pointer is reported; the returned scalar is
  not, although it resolves to the allocation.
\<close>

lemma return_escape_reports_scenarios:
  "filter isReturnReport (checkFunctionFinal2 fnDirectReturn) = [EscapesViaReturn 4 3]
   \<and> filter isReturnReport (checkFunctionFinal2 fnValueReturn) = []
   \<and> findAllocation (nodes fnValueReturn)
        (allocations (firstPass (nodes fnValueReturn) (blocks_of fnValueReturn)))
        (storesTo (firstPass (nodes fnValueReturn) (blocks_of fnValueReturn))) 5 \<noteq> None
   \<and> \<not> isPointerType (Type fnValueReturn 5)"
proof -
  have a: "concat (map (returnReports fnDirectReturn
                (firstPass (nodes fnDirectReturn) (blocks_of fnDirectReturn)))
              (concat (blocks_of fnDirectReturn))) = [EscapesViaReturn 4 3]"
    by (simp add: fnDirectReturn_def returnReports_def flagged_def analyzer_defs)
  have b: "concat (map (returnReports fnValueReturn
                (firstPass (nodes fnValueReturn) (blocks_of fnValueReturn)))
              (concat (blocks_of fnValueReturn))) = []"
    by (simp add: fnValueReturn_def returnReports_def flagged_def analyzer_defs)
  have c: "findAllocation (nodes fnValueReturn)
        (allocations (firstPass (nodes fnValueReturn) (blocks_of fnValueReturn)))
        (storesTo (firstPass (nodes fnValueReturn) (blocks_of fnValueReturn))) 5 \<noteq> None"
    by (simp add: fnValueReturn_def analyzer_defs)
  have d: "\<not> isPointerType (Type fnValueReturn 5)" by (simp add: fnValueReturn_def)
  from return_escape_reports[of fnDirectReturn] a
  have 1: "filter isReturnReport (checkFunctionFinal2 fnDirectReturn) = [EscapesViaReturn 4 3]"
    by simp
  from return_escape_reports[of fnValueReturn] b
  have 2: "filter isReturnReport (checkFunctionFinal2 fnValueReturn) = []" by simp
  from 1 2 c d show ?thesis by simp
qed

subsection \<open>Boxed and aliased pointers\<close>

text \<open>
  \<open>fnInterfaceReturn\<close> is test case 12 of \<^verbatim>\<open>testdata/comprehensive/patterns.go\<close>:

  \<^verbatim>\<open>func interfaceEscape() interface{} { a := arena.NewArena(); defer a.Free(); return arena.New[int](a) }\<close>

  The deferred release is an \<^verbatim>\<open>*ssa.Defer\<close> (node 4), no call the first pass looks at; the
  allocation (node 5) is boxed by an \<^verbatim>\<open>*ssa.MakeInterface\<close> (node 6), whose type is the
  interface type, and the box is returned (node 8) after \<^verbatim>\<open>*ssa.RunDefers\<close> (node 7).
\<close>

definition fnInterfaceReturn :: ssa_function where
  "fnInterfaceReturn =
     \<lparr>Blocks = Some [[3, 4, 5, 6, 7, 8]],
      nodes = [OtherValue, OtherValue, OtherValue,
               Call (Some cNewArena) 0 [],
               OtherInstr [Some 2, Some 3],
               Call (Some cNew) 1 [3],
               MakeInterface 5,
               OtherInstr [],
               Return [6]],
      Type = (\<lambda>v. if v = 6 then Interface else Pointer OtherType)\<rparr>"

text \<open>
  \<open>fnAliasReturn\<close>: with \<^verbatim>\<open>type IntPtr = *int\<close> and \<^verbatim>\<open>type S struct{ p IntPtr }\<close>,

  \<^verbatim>\<open>a := arena.NewArena(); s := arena.New[S](a); return s.p\<close>

  The field address (node 4) is loaded (node 5) at the field's declared type, the alias.
\<close>

definition fnAliasReturn :: ssa_function where
  "fnAliasReturn =
     \<lparr>Blocks = Some [[2, 3, 4, 5, 6]],
      nodes = [OtherValue, OtherValue,
               Call (Some cNewArena) 0 [],
               Call (Some cNew) 1 [2],
               FieldAddr 3,
               UnOp 4,
               Return [5]],
      Type = (\<lambda>v. if v = 5 then Alias (Pointer OtherType) else Pointer OtherType)\<rparr>"

text \<open>
  Claim C1. A returned result is to be reported if and only if it resolves to a tracked
  allocation and its static type is a pointer or reference type. The analyzer reports
  nothing for \<open>fnInterfaceReturn\<close>, whose result resolves to the allocation at node 5 and
  holds that pointer in an interface, while the test data wants
  \<^verbatim>\<open>"arena allocation escapes"\<close> there; and nothing for \<open>fnAliasReturn\<close>, whose result
  resolves to the allocation at node 3 and has a pointer type under an alias.
  \<open>isPointerType\<close> is false of both types.
\<close>

theorem boxed_and_alias_pointer_returns_not_reported:
  "checkFunctionFinal2 fnInterfaceReturn = []
   \<and> node_of (nodes fnInterfaceReturn) 8 = Return [6]
   \<and> Type fnInterfaceReturn 6 = Interface
   \<and> \<not> isPointerType (Type fnInterfaceReturn 6)
   \<and> map_option allocPos
        (findAllocation (nodes fnInterfaceReturn)
           (allocations (firstPass (nodes fnInterfaceReturn) (blocks_of fnInterfaceReturn)))
           (storesTo (firstPass (nodes fnInterfaceReturn) (blocks_of fnInterfaceReturn))) 6)
       = Some 5
   \<and> checkFunctionFinal2 fnAliasReturn = []
   \<and> node_of (nodes fnAliasReturn) 6 = Return [5]
   \<and> Type fnAliasReturn 5 = Alias (Pointer OtherType)
   \<and> \<not> isPointerType (Type fnAliasReturn 5)
   \<and> map_option allocPos
        (findAllocation (nodes fnAliasReturn)
           (allocations (firstPass (nodes fnAliasReturn) (blocks_of fnAliasReturn)))
           (storesTo (firstPass (nodes fnAliasReturn) (blocks_of fnAliasReturn))) 5)
       = Some 3"
  by (simp add: fnInterfaceReturn_def fnAliasReturn_def analyzer_defs)

subsection \<open>Double release and global stores\<close>

text \<open>\<^verbatim>\<open>a := arena.NewArena(); a.Free(); a.Free()\<close>\<close>

definition fnDoubleFree :: ssa_function where
  "fnDoubleFree =
     \<lparr>Blocks = Some [[2, 3, 4, 5]],
      nodes = [OtherValue, OtherValue,
               Call (Some cNewArena) 0 [],
               Call (Some cFree) 1 [2],
               Call (Some cFree) 1 [2],
               Return []],
      Type = (\<lambda>v. Pointer OtherType)\<rparr>"

text \<open>
  Claim C2. A second release of the same region is to be reported as a double free. The
  analyzer has no such report: \<open>create-region; release; release\<close> yields no report at all,
  while \<^verbatim>\<open>testdata/comprehensive/patterns.go\<close> (test case 15) wants one at the second
  release.
\<close>

theorem double_free_not_reported:
  "checkFunctionFinal2 fnDoubleFree = []"
  by (simp add: fnDoubleFree_def analyzer_defs)

text \<open>\<^verbatim>\<open>var g int\<close>; \<^verbatim>\<open>a := arena.NewArena(); x := arena.New[int](a); g = *x\<close>\<close>

definition fnGlobalValue :: ssa_function where
  "fnGlobalValue =
     \<lparr>Blocks = Some [[3, 4, 5, 6, 7]],
      nodes = [OtherValue, OtherValue, Global,
               Call (Some cNewArena) 0 [],
               Call (Some cNew) 1 [3],
               UnOp 4,
               Store 2 5,
               Return []],
      Type = (\<lambda>v. if v = 4 then Pointer OtherType else OtherType)\<rparr>"

text \<open>
  Claim C3. A store to a global is to be reported only when the stored value has a
  pointer type. The return check applies \<open>isPointerType\<close>, the global-store check does
  not: storing the loaded \<^verbatim>\<open>int\<close> of an allocation into a global is reported, while the
  return check gives no report for the same value.
\<close>

theorem global_store_of_value_reported:
  "checkFunctionFinal2 fnGlobalValue = [EscapesToGlobal 6 4]
   \<and> findAllocation (nodes fnGlobalValue)
         (allocations (firstPass (nodes fnGlobalValue) (blocks_of fnGlobalValue)))
         (storesTo (firstPass (nodes fnGlobalValue) (blocks_of fnGlobalValue))) 5 \<noteq> None
   \<and> \<not> isPointerType (Type fnGlobalValue 5)
   \<and> checkResult fnGlobalValue
         (firstPass (nodes fnGlobalValue) (blocks_of fnGlobalValue)) 7 5 = []"
  by (simp add: fnGlobalValue_def analyzer_defs)

text \<open>
  What the global-store check does on every function: one report for each store whose
  address is a global and whose value resolves to an allocation, whatever its type.
\<close>

lemma global_escape_reports:
  "filter isGlobalReport (checkFunctionFinal2 fn) =
     concat (map (checkGlobalStore fn (firstPass (nodes fn) (blocks_of fn)))
                 (concat (blocks_of fn)))"
  by (simp add: checkFunctionFinal2_def Let_def filter_concat_map global_reports_sweepBlock
        concat_map_concat)

section \<open>Use after free: one report per instruction\<close>

text \<open>
  \<open>offending\<close>: the allocation an operand slot resolves to, when its arena is freed.
\<close>

definition offending :: "node list \<Rightarrow> tracker \<Rightarrow> vid set \<Rightarrow> vid option \<Rightarrow> allocInfo option" where
  "offending ns t freedArenas slot =
     (case slot of
        None \<Rightarrow> None
      | Some operand \<Rightarrow>
          (case findAllocation ns (allocations t) (storesTo t) operand of
             Some alloc \<Rightarrow> if arena_value (arena alloc) \<in> freedArenas then Some alloc else None
           | None \<Rightarrow> None))"

lemma checkOperands_first_offender:
  "checkOperands ns t F instr ops =
     (case List.map_filter (offending ns t F) ops of
        [] \<Rightarrow> []
      | alloc # others \<Rightarrow> [UseAfterFree instr (allocPos alloc)])"
  by (induction ns t F instr ops rule: checkOperands.induct)
     (simp_all add: List.map_filter_simps offending_def split: option.splits)

lemma checkOperands_length: "length (checkOperands ns t F instr ops) \<le> 1"
  by (simp add: checkOperands_first_offender split: list.splits)

lemma uaf_reports_checkInstr:
  "filter isUseAfterFreeReport (checkInstr fn t F instr) =
     (if F \<noteq> {} then checkUseAfterFree (nodes fn) t F instr else [])"
proof -
  have 1: "filter isUseAfterFreeReport (checkUseAfterFree (nodes fn) t F instr)
            = checkUseAfterFree (nodes fn) t F instr"
    by (rule filter_all[OF checkUseAfterFree_kind]) simp
  have 2: "filter isUseAfterFreeReport (checkReturn fn t instr) = []"
    by (rule filter_none[OF checkReturn_kind]) (simp add: return_not_others)
  have 3: "filter isUseAfterFreeReport (checkGlobalStore fn t instr) = []"
    by (rule filter_none[OF checkGlobalStore_kind]) (simp add: global_not_others)
  show ?thesis by (simp add: checkInstr_def 1 2 3)
qed

lemma filter_conj: "filter (\<lambda>d. P d \<and> Q d) xs = filter Q (filter P xs)"
  by (induction xs) auto

lemma uaf_at_checkInstr:
  "length (filter (\<lambda>d. isUseAfterFreeReport d \<and> reportedAt d = i) (checkInstr fn t F instr))
     \<le> (if instr = i then 1 else 0)"
proof -
  let ?u = "if F \<noteq> {} then checkUseAfterFree (nodes fn) t F instr else []"
  have k: "list_all (\<lambda>d. isUseAfterFreeReport d \<and> reportedAt d = instr) ?u"
    by (simp add: checkUseAfterFree_kind)
  have l: "length ?u \<le> 1"
    using checkOperands_length[of "nodes fn" t F instr] by (simp add: checkUseAfterFree_def)
  have e: "filter (\<lambda>d. isUseAfterFreeReport d \<and> reportedAt d = i) (checkInstr fn t F instr)
        = filter (\<lambda>d. reportedAt d = i) ?u"
    by (simp only: filter_conj uaf_reports_checkInstr)
  show ?thesis
  proof (cases "instr = i")
    case True
    have "length (filter (\<lambda>d. reportedAt d = i) ?u) \<le> length ?u"
      by (rule length_filter_le)
    then have "length (filter (\<lambda>d. reportedAt d = i) ?u) \<le> 1"
      using l by (rule order_trans)
    then have "length (filter (\<lambda>d. isUseAfterFreeReport d \<and> reportedAt d = i)
                 (checkInstr fn t F instr)) \<le> 1"
      by (simp only: e)
    with True show ?thesis by simp
  next
    case False
    have "filter (\<lambda>d. reportedAt d = i) ?u = []"
      by (rule filter_none[OF k]) (use False in simp)
    with e False show ?thesis by simp
  qed
qed

lemma uaf_at_sweepBlock:
  "length (filter (\<lambda>d. isUseAfterFreeReport d \<and> reportedAt d = i) (sweepBlock fn t F block))
     \<le> count_list block i"
proof (induction block arbitrary: F)
  case Nil
  show ?case by simp
next
  case (Cons instr rest)
  show ?case
    using uaf_at_checkInstr[of i fn t "noteFree t instr F" instr]
          Cons.IH[of "noteFree t instr F"]
    by (auto simp: Let_def)
qed

lemma count_list_concat: "count_list (concat bs) i = sum_list (map (\<lambda>b. count_list b i) bs)"
  by (induction bs) simp_all

lemma uaf_at_function:
  "length (filter (\<lambda>d. isUseAfterFreeReport d \<and> reportedAt d = i) (checkFunctionFinal2 fn))
     \<le> count_list (concat (blocks_of fn)) i"
proof -
  have "length (filter P (concat (map (sweepBlock fn t {}) bs)))
         = sum_list (map (\<lambda>b. length (filter P (sweepBlock fn t {} b))) bs)" for P t bs
    by (induction bs) simp_all
  moreover have "sum_list (map (\<lambda>b. length (filter (\<lambda>d. isUseAfterFreeReport d \<and> reportedAt d = i)
                     (sweepBlock fn t {} b))) bs)
         \<le> sum_list (map (\<lambda>b. count_list b i) bs)" for t bs
    by (rule sum_list_mono) (simp add: uaf_at_sweepBlock)
  ultimately show ?thesis
    by (simp add: checkFunctionFinal2_def Let_def count_list_concat)
qed

text \<open>
  Claim C9. \<open>checkUseAfterFree\<close> reports at most once for an instruction, however many of
  its operands resolve to allocations of freed arenas: the report is the one of the first
  offending operand, and the operands after it are not examined. Over a whole function,
  the use-after-free reports attached to an instruction are at most as many as the
  instruction's occurrences in the blocks.
\<close>

theorem one_uaf_report_per_instruction:
  "length (checkUseAfterFree ns t F instr) \<le> 1
   \<and> checkUseAfterFree ns t F instr =
       (case List.map_filter (offending ns t F) (Operands (node_of ns instr)) of
          [] \<Rightarrow> []
        | alloc # others \<Rightarrow> [UseAfterFree instr (allocPos alloc)])
   \<and> length (filter (\<lambda>d. isUseAfterFreeReport d \<and> reportedAt d = i) (checkFunctionFinal2 fn))
       \<le> count_list (concat (blocks_of fn)) i"
  using checkOperands_length[of ns t F instr "Operands (node_of ns instr)"]
  by (simp add: checkUseAfterFree_def uaf_at_function checkOperands_first_offender[symmetric])

text \<open>
  After the release, an instruction with two operands that are allocations of the freed
  arena (and a nil slot between them): one report, for the first.
\<close>

definition fnTwoOperands :: ssa_function where
  "fnTwoOperands =
     \<lparr>Blocks = Some [[3, 4, 5, 6, 7, 8]],
      nodes = [OtherValue, OtherValue, OtherValue,
               Call (Some cNewArena) 0 [],
               Call (Some cNew) 1 [3],
               Call (Some cNew) 1 [3],
               Call (Some cFree) 2 [3],
               OtherInstr [Some 4, None, Some 5],
               Return []],
      Type = (\<lambda>v. Pointer OtherType)\<rparr>"

theorem one_uaf_report_per_instruction_witness:
  "map allocPos (List.map_filter
        (offending (nodes fnTwoOperands)
           (firstPass (nodes fnTwoOperands) (blocks_of fnTwoOperands)) {3})
        (Operands (node_of (nodes fnTwoOperands) 7))) = [4, 5]
   \<and> checkUseAfterFree (nodes fnTwoOperands)
        (firstPass (nodes fnTwoOperands) (blocks_of fnTwoOperands)) {3} 7 = [UseAfterFree 7 4]
   \<and> checkFunctionFinal2 fnTwoOperands = [UseAfterFree 7 4]"
proof -
  let ?ns = "nodes fnTwoOperands"
  let ?t = "firstPass ?ns (blocks_of fnTwoOperands)"
  have o: "map allocPos (List.map_filter (offending ?ns ?t {3}) (Operands (node_of ?ns 7)))
             = [4, 5]"
    by (simp add: fnTwoOperands_def offending_def List.map_filter_simps analyzer_defs)
  then obtain a b where ab: "List.map_filter (offending ?ns ?t {3}) (Operands (node_of ?ns 7))
             = [a, b]" "allocPos a = 4"
    by (auto simp: map_eq_Cons_conv)
  from one_uaf_report_per_instruction[of ?ns ?t "{3}" 7] ab
  have u: "checkUseAfterFree ?ns ?t {3} 7 = [UseAfterFree 7 4]" by simp
  have c: "checkFunctionFinal2 fnTwoOperands = [UseAfterFree 7 4]"
    by (simp add: fnTwoOperands_def analyzer_defs)
  from o u c show ?thesis by simp
qed

section \<open>Use after free: the released set is local to a block\<close>

text \<open>
  \<open>freedAt t block j\<close>: the \<^verbatim>\<open>freedArenas\<close> map at the moment instruction \<open>j\<close> of a block is
  checked, the release made by that instruction included.
\<close>

definition freedAt :: "tracker \<Rightarrow> vid list \<Rightarrow> nat \<Rightarrow> vid set" where
  "freedAt t block j = fold (noteFree t) (take (Suc j) block) {}"

lemma sweepBlock_positions:
  "sweepBlock fn t F block =
     concat (map (\<lambda>j. checkInstr fn t (fold (noteFree t) (take (Suc j) block) F) (block ! j))
                 [0..<length block])"
proof (induction block arbitrary: F)
  case Nil
  show ?case by simp
next
  case (Cons instr rest)
  have "[0..<length (instr # rest)] = 0 # map Suc [0..<length rest]"
    by (simp add: upt_conv_Cons map_Suc_upt del: upt_Suc)
  then show ?case
    by (simp add: Cons.IH Let_def comp_def del: upt_Suc)
qed

lemma noteFree_iff:
  "a \<in> noteFree t x F \<longleftrightarrow> a \<in> F \<or> freeInstrs t x = Some a"
  by (auto simp: noteFree_def split: option.splits)

lemma fold_noteFree:
  "a \<in> fold (noteFree t) instrs F \<longleftrightarrow>
     a \<in> F \<or> (\<exists>i<length instrs. freeInstrs t (instrs ! i) = Some a)"
proof (induction instrs arbitrary: F)
  case Nil
  show ?case by simp
next
  case (Cons x xs)
  have "(\<exists>i<length (x # xs). freeInstrs t ((x # xs) ! i) = Some a)
         \<longleftrightarrow> freeInstrs t x = Some a \<or> (\<exists>i<length xs. freeInstrs t (xs ! i) = Some a)"
    by (auto simp: less_Suc_eq_0_disj)
  then show ?case
    by (simp only: fold_simps Cons.IH noteFree_iff) blast
qed

lemma freedAt_iff:
  "a \<in> freedAt t block j \<longleftrightarrow>
     (\<exists>i\<le>j. i < length block \<and> freeInstrs t (block ! i) = Some a)"
proof -
  have "(\<exists>i<length (take (Suc j) block). freeInstrs t (take (Suc j) block ! i) = Some a)
        \<longleftrightarrow> (\<exists>i\<le>j. i < length block \<and> freeInstrs t (block ! i) = Some a)"
    by (auto simp: less_Suc_eq_le)
  then show ?thesis by (simp add: freedAt_def fold_noteFree)
qed

lemma checkOperands_reports_iff:
  "checkOperands ns t F instr ops \<noteq> [] \<longleftrightarrow>
     (\<exists>operand alloc. Some operand \<in> set ops
        \<and> findAllocation ns (allocations t) (storesTo t) operand = Some alloc
        \<and> arena_value (arena alloc) \<in> F)"
  by (induction ns t F instr ops rule: checkOperands.induct)
     (auto split: option.splits)

lemma uaf_reports_iff:
  "filter isUseAfterFreeReport (checkInstr fn t F instr) \<noteq> [] \<longleftrightarrow>
     (\<exists>operand alloc. Some operand \<in> set (Operands (node_of (nodes fn) instr))
        \<and> findAllocation (nodes fn) (allocations t) (storesTo t) operand = Some alloc
        \<and> arena_value (arena alloc) \<in> F)"
proof (cases "F = {}")
  case True
  then show ?thesis by (simp add: uaf_reports_checkInstr)
next
  case False
  then show ?thesis
    by (simp add: uaf_reports_checkInstr checkUseAfterFree_def checkOperands_reports_iff)
qed

text \<open>
  What the sweep does on every function. Every block is swept from an empty
  \<^verbatim>\<open>freedArenas\<close>, so the reports made at an instruction depend on the releases of its own
  block only, and a release in another block never contributes. An arena is in the set at
  instruction \<open>j\<close> exactly when an instruction at position \<open>i \<le> j\<close> of the same block is a
  recorded release of it: the releasing instruction itself is examined with its own release
  already recorded. With that set, a use-after-free report is made at the instruction
  exactly when one of its operands resolves to an allocation whose arena is in the set.
\<close>

lemma uaf_block_local:
  "checkFunctionFinal2 fn =
     concat (map (\<lambda>block.
               concat (map (\<lambda>j. checkInstr fn (firstPass (nodes fn) (blocks_of fn))
                                    (freedAt (firstPass (nodes fn) (blocks_of fn)) block j)
                                    (block ! j))
                           [0..<length block]))
             (blocks_of fn))
   \<and> (a \<in> freedAt t block j \<longleftrightarrow>
        (\<exists>i\<le>j. i < length block \<and> freeInstrs t (block ! i) = Some a))
   \<and> (filter isUseAfterFreeReport (checkInstr fn t F instr) \<noteq> [] \<longleftrightarrow>
        (\<exists>operand alloc. Some operand \<in> set (Operands (node_of (nodes fn) instr))
           \<and> findAllocation (nodes fn) (allocations t) (storesTo t) operand = Some alloc
           \<and> arena_value (arena alloc) \<in> F))"
proof (intro conjI)
  show "checkFunctionFinal2 fn =
     concat (map (\<lambda>block.
               concat (map (\<lambda>j. checkInstr fn (firstPass (nodes fn) (blocks_of fn))
                                    (freedAt (firstPass (nodes fn) (blocks_of fn)) block j)
                                    (block ! j))
                           [0..<length block]))
             (blocks_of fn))"
    by (simp add: checkFunctionFinal2_def Let_def sweepBlock_positions[abs_def] freedAt_def)
qed (rule freedAt_iff, rule uaf_reports_iff)

text \<open>
  \<^verbatim>\<open>a := arena.NewArena(); x := arena.New[int](a); FreeAndLog(a, x)\<close>, where the callee
  \<^verbatim>\<open>main.FreeAndLog\<close> matches \<^verbatim>\<open>".Free"\<close> and takes the arena first.
\<close>

definition cFreeAndLog :: callee where
  "cFreeAndLog = \<lparr>fullName = ''main.FreeAndLog'', shortName = ''FreeAndLog''\<rparr>"

definition fnReleaseWithOperand :: ssa_function where
  "fnReleaseWithOperand =
     \<lparr>Blocks = Some [[3, 4, 5, 6]],
      nodes = [OtherValue, OtherValue, OtherValue,
               Call (Some cNewArena) 0 [],
               Call (Some cNew) 1 [3],
               Call (Some cFreeAndLog) 2 [3, 4],
               Return []],
      Type = (\<lambda>v. Pointer OtherType)\<rparr>"

text \<open>
  Claim C4. A use-after-free report is to be made at an instruction exactly when, in the
  same block and after a release of the owning region, one of its operands resolves to an
  allocation of that region. The comments of the source say the same
  (\<^verbatim>\<open>Check for uses of allocations after their arena was freed\<close>;
  \<^verbatim>\<open>detects if an instruction uses an allocation after its arena was freed\<close>),
  as does the message (\<^verbatim>\<open>use of arena allocation after Free()\<close>). The sweep records a
  release before it examines the releasing instruction, so the report below is made at the
  first release of its block, not after one: no instruction before position 2 of the block
  is a release, and the call at position 2 receives the allocation while its region is
  still live.
\<close>

theorem uaf_at_release_itself:
  "checkFunctionFinal2 fnReleaseWithOperand = [UseAfterFree 5 4]
   \<and> blocks_of fnReleaseWithOperand = [[3, 4, 5, 6]]
   \<and> map (freeInstrs (firstPass (nodes fnReleaseWithOperand)
                                (blocks_of fnReleaseWithOperand))) [3, 4] = [None, None]"
  by (simp add: fnReleaseWithOperand_def cFreeAndLog_def analyzer_defs)

text \<open>
  A release in one block and a use of the allocation in the next block: nothing is
  reported.
\<close>

definition fnCrossBlock :: ssa_function where
  "fnCrossBlock =
     \<lparr>Blocks = Some [[3, 4, 5], [6, 7]],
      nodes = [OtherValue, OtherValue, OtherValue,
               Call (Some cNewArena) 0 [],
               Call (Some cNew) 1 [3],
               Call (Some cFree) 2 [3],
               UnOp 4,
               Return [6]],
      Type = (\<lambda>v. if v = 4 then Pointer OtherType else OtherType)\<rparr>"

lemma uaf_block_local_scenario:
  "checkFunctionFinal2 fnCrossBlock = []
   \<and> freedAt (firstPass (nodes fnCrossBlock) (blocks_of fnCrossBlock)) [3, 4, 5] 2 = {3}
   \<and> freedAt (firstPass (nodes fnCrossBlock) (blocks_of fnCrossBlock)) [6, 7] 1 = {}"
  using uaf_block_local[of fnCrossBlock, THEN conjunct1]
  by (simp add: fnCrossBlock_def analyzer_defs freedAt_def)

section \<open>The store map keeps the last store\<close>

text \<open>\<open>storesIn\<close>: the (address, value) pairs of the store instructions, in stream order.\<close>

definition storesIn :: "node list \<Rightarrow> vid list \<Rightarrow> (vid \<times> vid) list" where
  "storesIn ns instrs =
     List.map_filter
       (\<lambda>instr. case node_of ns instr of Store addr val \<Rightarrow> Some (addr, val) | _ \<Rightarrow> None)
       instrs"

lemma trackCall_storesTo: "storesTo (trackCall call c args t) = storesTo t"
  by (simp add: trackCall_def Let_def split: option.splits)

lemma trackInstr_storesTo:
  "storesTo (trackInstr ns instr t) =
     (case node_of ns instr of
        Store addr val \<Rightarrow> (storesTo t)(addr \<mapsto> val)
      | _ \<Rightarrow> storesTo t)"
  by (simp add: trackInstr_def trackCall_storesTo split: node.splits option.splits)

lemma fold_trackInstr_storesTo:
  "storesTo (fold (trackInstr ns) instrs t) = storesTo t ++ map_of (rev (storesIn ns instrs))"
proof (induction instrs arbitrary: t)
  case Nil
  show ?case by (simp add: storesIn_def List.map_filter_simps)
next
  case (Cons i rest)
  show ?case
  proof (cases "node_of ns i")
    case (Store addr val)
    then have "storesIn ns (i # rest) = (addr, val) # storesIn ns rest"
      by (simp add: storesIn_def List.map_filter_simps)
    with Store show ?thesis
      by (auto simp: Cons.IH trackInstr_storesTo fun_eq_iff map_add_def split: option.splits)
  qed (simp_all add: Cons.IH trackInstr_storesTo storesIn_def List.map_filter_simps)
qed

lemma firstPass_stream:
  "firstPass ns blocks = fold (trackInstr ns) (concat blocks) emptyTracker"
proof -
  have "fold (\<lambda>block t. fold f block t) bs t = fold f (concat bs) t" for f :: "vid \<Rightarrow> tracker \<Rightarrow> tracker" and bs t
    by (induction bs arbitrary: t) simp_all
  then show ?thesis by (simp add: firstPass_def)
qed

lemma map_of_rev_last:
  "map_of (rev ps) k =
     (case filter (\<lambda>p. fst p = k) ps of [] \<Rightarrow> None | q # qs \<Rightarrow> Some (snd (last (q # qs))))"
proof (induction ps rule: rev_induct)
  case Nil
  show ?case by simp
next
  case (snoc p ps)
  then show ?case by (cases p) (auto split: list.splits)
qed

text \<open>
  What the resolver does at a load that is not visited and is no allocation itself: it
  looks the loaded slot up in the store map, that is, it takes the last store to the slot
  in stream order; it resolves the value of that store first and the slot itself second.
  No other store to the slot is consulted.
\<close>

lemma load_consults_last_store:
  assumes "node_of ns val = UnOp operand" and "val \<notin> visited" and "allocs val = None"
  shows "findAllocationRec ns allocs (storesTo (firstPass ns blocks)) val visited =
     (case filter (\<lambda>p. fst p = operand) (storesIn ns (concat blocks)) of
        [] \<Rightarrow>
          findAllocationRec ns allocs (storesTo (firstPass ns blocks)) operand
            (insert val visited)
      | q # qs \<Rightarrow>
          (case findAllocationRec ns allocs (storesTo (firstPass ns blocks))
                  (snd (last (q # qs))) (insert val visited) of
             (Some alloc, visited') \<Rightarrow> (Some alloc, visited')
           | (None, visited') \<Rightarrow>
               findAllocationRec ns allocs (storesTo (firstPass ns blocks)) operand visited'))"
proof -
  have m: "storesTo (firstPass ns blocks) operand =
     (case filter (\<lambda>p. fst p = operand) (storesIn ns (concat blocks)) of
        [] \<Rightarrow> None
      | q # qs \<Rightarrow> Some (snd (last (q # qs))))"
    by (simp add: firstPass_stream fold_trackInstr_storesTo emptyTracker_def map_of_rev_last)
  show ?thesis
  proof (cases "filter (\<lambda>p. fst p = operand) (storesIn ns (concat blocks))")
    case Nil
    with m have "storesTo (firstPass ns blocks) operand = None" by simp
    with assms Nil show ?thesis
      by (subst findAllocationRec.simps) simp
  next
    case (Cons q qs)
    with m have "storesTo (firstPass ns blocks) operand = Some (snd (last (q # qs)))" by simp
    with assms Cons show ?thesis
      by (subst findAllocationRec.simps) simp
  qed
qed

text \<open>
  Claim C10. After the first pass the store map holds, for each address, the value of the
  last store to it in block-and-instruction order over the whole function, and nothing of
  the earlier stores. The edges the resolver follows from a load are that last stored value
  (if any) and then the slot itself, wherever the store stands relative to the load. And
  \<open>findAllocationRec\<close> at a load that is not visited and is no allocation itself returns
  what it returns on the value of the last store to the slot, or, when that resolves to
  nothing or the slot was never stored to, what it returns on the slot: the values of
  earlier stores do not occur.
\<close>

theorem last_store_only:
  "storesTo (firstPass ns blocks) addr =
     (case filter (\<lambda>p. fst p = addr) (storesIn ns (concat blocks)) of
        [] \<Rightarrow> None
      | q # qs \<Rightarrow> Some (snd (last (q # qs))))
   \<and> (node_of ns val = UnOp operand \<longrightarrow>
        provenanceEdges ns (storesTo (firstPass ns blocks)) val =
          (case storesTo (firstPass ns blocks) operand of
             Some stored \<Rightarrow> [stored, operand]
           | None \<Rightarrow> [operand]))
   \<and> (node_of ns val = UnOp operand \<and> val \<notin> visited \<and> allocs val = None \<longrightarrow>
        findAllocationRec ns allocs (storesTo (firstPass ns blocks)) val visited =
          (case filter (\<lambda>p. fst p = operand) (storesIn ns (concat blocks)) of
             [] \<Rightarrow>
               findAllocationRec ns allocs (storesTo (firstPass ns blocks)) operand
                 (insert val visited)
           | q # qs \<Rightarrow>
               (case findAllocationRec ns allocs (storesTo (firstPass ns blocks))
                       (snd (last (q # qs))) (insert val visited) of
                  (Some alloc, visited') \<Rightarrow> (Some alloc, visited')
                | (None, visited') \<Rightarrow>
                    findAllocationRec ns allocs (storesTo (firstPass ns blocks)) operand
                      visited')))"
proof -
  have 1: "storesTo (firstPass ns blocks) addr =
     (case filter (\<lambda>p. fst p = addr) (storesIn ns (concat blocks)) of
        [] \<Rightarrow> None
      | q # qs \<Rightarrow> Some (snd (last (q # qs))))"
    by (simp add: firstPass_stream fold_trackInstr_storesTo emptyTracker_def map_of_rev_last)
  have 2: "node_of ns val = UnOp operand \<longrightarrow>
        provenanceEdges ns (storesTo (firstPass ns blocks)) val =
          (case storesTo (firstPass ns blocks) operand of
             Some stored \<Rightarrow> [stored, operand]
           | None \<Rightarrow> [operand])"
    by (simp add: provenanceEdges_def)
  from 1 2 load_consults_last_store[of ns val operand visited allocs blocks]
  show ?thesis by blast
qed

text \<open>
  A slot that receives an allocation, is loaded, and is overwritten with nil after the
  load: the returned load resolves through the later store, visits the nil value and the
  slot, never the allocation at node 5, and is not reported.
\<close>

definition fnStoreAfterLoad :: ssa_function where
  "fnStoreAfterLoad =
     \<lparr>Blocks = Some [[2, 4, 5, 6, 7, 8, 9]],
      nodes = [OtherValue, OtherValue,
               OtherInstr [],
               OtherValue,
               Call (Some cNewArena) 0 [],
               Call (Some cNew) 1 [4],
               Store 2 5,
               UnOp 2,
               Store 2 3,
               Return [7]],
      Type = (\<lambda>v. Pointer OtherType)\<rparr>"

theorem last_store_only_witness:
  "node_of (nodes fnStoreAfterLoad) 7 = UnOp 2
   \<and> storesIn (nodes fnStoreAfterLoad) (concat (blocks_of fnStoreAfterLoad)) = [(2, 5), (2, 3)]
   \<and> storesTo (firstPass (nodes fnStoreAfterLoad) (blocks_of fnStoreAfterLoad)) 2 = Some 3
   \<and> provenanceEdges (nodes fnStoreAfterLoad)
        (storesTo (firstPass (nodes fnStoreAfterLoad) (blocks_of fnStoreAfterLoad))) 7 = [3, 2]
   \<and> allocations (firstPass (nodes fnStoreAfterLoad) (blocks_of fnStoreAfterLoad)) 7 = None
   \<and> map_option allocPos
        (allocations (firstPass (nodes fnStoreAfterLoad) (blocks_of fnStoreAfterLoad)) 5) = Some 5
   \<and> findAllocationRec (nodes fnStoreAfterLoad)
        (allocations (firstPass (nodes fnStoreAfterLoad) (blocks_of fnStoreAfterLoad)))
        (storesTo (firstPass (nodes fnStoreAfterLoad) (blocks_of fnStoreAfterLoad))) 7 {}
       = (None, {7, 3, 2})
   \<and> checkFunctionFinal2 fnStoreAfterLoad = []"
proof -
  let ?ns = "nodes fnStoreAfterLoad"
  let ?t = "firstPass (nodes fnStoreAfterLoad) (blocks_of fnStoreAfterLoad)"
  have n: "node_of ?ns 7 = UnOp 2"
    by (simp add: fnStoreAfterLoad_def node_of_def)
  have s: "storesIn ?ns (concat (blocks_of fnStoreAfterLoad)) = [(2, 5), (2, 3)]"
    by (simp add: fnStoreAfterLoad_def storesIn_def List.map_filter_simps node_of_def
          blocks_of_def)
  have a7: "allocations ?t 7 = None"
    by (simp add: fnStoreAfterLoad_def analyzer_defs)
  have a5: "map_option allocPos (allocations ?t 5) = Some 5"
    by (simp add: fnStoreAfterLoad_def analyzer_defs)
  have r3: "findAllocationRec ?ns (allocations ?t) (storesTo ?t) 3 {7} = (None, {7, 3})"
    by (simp add: fnStoreAfterLoad_def analyzer_defs insert_commute)
  have r2: "findAllocationRec ?ns (allocations ?t) (storesTo ?t) 2 {7, 3} = (None, {7, 3, 2})"
    by (simp add: fnStoreAfterLoad_def analyzer_defs insert_commute)
  note t = last_store_only[of ?ns "blocks_of fnStoreAfterLoad" 2 7 2 "{}" "allocations ?t"]
  from t s have l: "storesTo ?t 2 = Some 3"
    by simp
  from t n l have e: "provenanceEdges ?ns (storesTo ?t) 7 = [3, 2]"
    by simp
  from t n s a7 r3 r2
  have f: "findAllocationRec ?ns (allocations ?t) (storesTo ?t) 7 {} = (None, {7, 3, 2})"
    by (simp add: insert_commute)
  have c: "checkFunctionFinal2 fnStoreAfterLoad = []"
    by (simp add: fnStoreAfterLoad_def analyzer_defs)
  from n s l e a7 a5 f c show ?thesis by simp
qed

section \<open>The tracking pass and untracked regions\<close>

text \<open>
  \<open>tracked\<close>: every arena entry is the entry of its own key, and every allocation entry
  belongs to a call of \<^verbatim>\<open>arena.New[\<close> whose first argument has an arena entry, the one the
  allocation records.
\<close>

definition tracked :: "node list \<Rightarrow> tracker \<Rightarrow> bool" where
  "tracked ns t \<longleftrightarrow>
     (\<forall>k ai. arenas t k = Some ai \<longrightarrow> ai = \<lparr>arena_value = k\<rparr>) \<and>
     (\<forall>call alloc. allocations t call = Some alloc \<longrightarrow>
        (\<exists>c fv args. node_of ns call = Call (Some c) fv args \<and> args \<noteq> []
            \<and> Contains (fullName c) ''arena.New[''
            \<and> arenas t (hd args) = Some (arena alloc)))"

lemma tracked_empty: "tracked ns emptyTracker"
  by (simp add: tracked_def emptyTracker_def)

lemma tracked_arena:
  assumes "tracked ns t"
  shows "tracked ns (t\<lparr>arenas := (arenas t)(k \<mapsto> \<lparr>arena_value = k\<rparr>)\<rparr>)"
  unfolding tracked_def
proof (intro conjI allI impI)
  fix k' ai
  assume "arenas (t\<lparr>arenas := (arenas t)(k \<mapsto> \<lparr>arena_value = k\<rparr>)\<rparr>) k' = Some ai"
  with assms show "ai = \<lparr>arena_value = k'\<rparr>"
    by (auto simp: tracked_def split: if_splits)
next
  fix call alloc
  assume "allocations (t\<lparr>arenas := (arenas t)(k \<mapsto> \<lparr>arena_value = k\<rparr>)\<rparr>) call = Some alloc"
  then have "allocations t call = Some alloc" by simp
  with assms obtain c fv args where a: "node_of ns call = Call (Some c) fv args" "args \<noteq> []"
      "Contains (fullName c) ''arena.New[''" "arenas t (hd args) = Some (arena alloc)"
    unfolding tracked_def by blast
  from a(4) assms have "arena alloc = \<lparr>arena_value = hd args\<rparr>"
    unfolding tracked_def by blast
  with a show "\<exists>c fv args. node_of ns call = Call (Some c) fv args \<and> args \<noteq> []
            \<and> Contains (fullName c) ''arena.New[''
            \<and> arenas (t\<lparr>arenas := (arenas t)(k \<mapsto> \<lparr>arena_value = k\<rparr>)\<rparr>) (hd args)
                = Some (arena alloc)"
    by auto
qed

lemma tracked_alloc:
  assumes "tracked ns t" and "node_of ns call = Call (Some c) fv args" and "args \<noteq> []"
    and "Contains (fullName c) ''arena.New[''" and "arenas t (hd args) = Some ai"
  shows "tracked ns (t\<lparr>allocations := (allocations t)
            (call \<mapsto> \<lparr>arena = ai, alloc_value = call, allocPos = call\<rparr>)\<rparr>)"
  using assms unfolding tracked_def by auto

lemma tracked_free:
  "tracked ns t \<Longrightarrow> tracked ns (t\<lparr>freeInstrs := f\<rparr>)"
  unfolding tracked_def by simp

lemma tracked_store:
  "tracked ns t \<Longrightarrow> tracked ns (t\<lparr>storesTo := f\<rparr>)"
  unfolding tracked_def by simp

lemma tracked_trackCall:
  assumes "tracked ns t" and "node_of ns call = Call (Some c) fv args"
  shows "tracked ns (trackCall call c args t)"
proof -
  define t1 where "t1 = (if Contains (fullName c) ''arena.NewArena''
                then t\<lparr>arenas := (arenas t)(call \<mapsto> \<lparr>arena_value = call\<rparr>)\<rparr>
                else t)"
  define t2 where "t2 = (if Contains (fullName c) ''arena.New['' \<and> args \<noteq> []
                then (case arenas t1 (hd args) of
                        Some ai \<Rightarrow>
                          t1\<lparr>allocations := (allocations t1)
                               (call \<mapsto> \<lparr>arena = ai, alloc_value = call, allocPos = call\<rparr>)\<rparr>
                      | None \<Rightarrow> t1)
                else t1)"
  have 1: "tracked ns t1" using assms(1) by (simp add: t1_def tracked_arena)
  have 2: "tracked ns t2"
    using 1 assms(2) by (auto simp: t2_def tracked_alloc split: option.splits)
  have "trackCall call c args t =
          (if Contains (fullName c) ''.Free'' \<or> (shortName c = ''Free'' \<and> args \<noteq> [])
                then (if args \<noteq> []
                      then (case arenas t2 (hd args) of
                              Some ai \<Rightarrow> t2\<lparr>freeInstrs := (freeInstrs t2)(call \<mapsto> hd args)\<rparr>
                            | None \<Rightarrow> t2)
                      else t2)
                else t2)"
    by (simp only: trackCall_def Let_def t1_def t2_def)
  with 2 show ?thesis by (auto simp: tracked_free split: option.splits)
qed

lemma tracked_trackInstr: "tracked ns t \<Longrightarrow> tracked ns (trackInstr ns instr t)"
  by (auto simp: trackInstr_def tracked_trackCall tracked_store split: node.splits option.splits)

lemma tracked_fold: "tracked ns t \<Longrightarrow> tracked ns (fold (trackInstr ns) instrs t)"
  by (induction instrs arbitrary: t) (simp_all add: tracked_trackInstr)

lemma tracked_firstPass: "tracked ns (firstPass ns blocks)"
  by (simp add: firstPass_stream tracked_fold tracked_empty)

lemma untracked_region_ignored:
  assumes "node_of ns instr = Call (Some c) fv args"
    and "\<not> Contains (fullName c) ''arena.NewArena''"
    and "args = [] \<or> arenas t (hd args) = None"
  shows "trackInstr ns instr t = t"
  using assms by (auto simp: trackInstr_def trackCall_def)

lemma trackInstr1_records:
  assumes "node_of ns instr = Call (Some c) fv args"
    and "Contains (fullName c) ''arena.New[''" and "args \<noteq> []"
  shows "allocToArena (trackInstr1 ns instr t) instr = Some (hd args)"
  using assms by (simp add: trackInstr1_def trackCall1_def)

text \<open>
  Claim C8, as amended. In the first pass of \<open>checkFunctionFinal2\<close> an allocation entry
  exists only for a call of \<^verbatim>\<open>arena.New[\<close> whose first argument is a tracked arena; a call
  that creates no arena and whose first argument is missing or untracked leaves all four
  maps as they were. The pass returns maps only: it makes no report and has no failure.
  The first pass of the earlier \<open>checkFunctionFinal\<close> records \<^verbatim>\<open>allocToArena[call]\<close> for
  every call of \<^verbatim>\<open>arena.New[\<close> that has an argument, tracked arena or not.
\<close>

theorem untracked_allocate_ignored:
  "(allocations (firstPass ns blocks) call = Some alloc \<longrightarrow>
      (\<exists>c fv args. node_of ns call = Call (Some c) fv args \<and> args \<noteq> []
          \<and> Contains (fullName c) ''arena.New[''
          \<and> arenas (firstPass ns blocks) (hd args) = Some (arena alloc)))
   \<and> (node_of ns instr = Call (Some c) fv args
        \<and> \<not> Contains (fullName c) ''arena.NewArena''
        \<and> (args = [] \<or> arenas t (hd args) = None)
        \<longrightarrow> trackInstr ns instr t = t)
   \<and> (node_of ns instr = Call (Some c) fv args
        \<and> Contains (fullName c) ''arena.New['' \<and> args \<noteq> []
        \<longrightarrow> allocToArena (trackInstr1 ns instr t1) instr = Some (hd args))"
proof (intro conjI impI)
  assume "allocations (firstPass ns blocks) call = Some alloc"
  with tracked_firstPass[of ns blocks]
  show "\<exists>c fv args. node_of ns call = Call (Some c) fv args \<and> args \<noteq> []
          \<and> Contains (fullName c) ''arena.New[''
          \<and> arenas (firstPass ns blocks) (hd args) = Some (arena alloc)"
    unfolding tracked_def by blast
next
  assume "node_of ns instr = Call (Some c) fv args
        \<and> \<not> Contains (fullName c) ''arena.NewArena''
        \<and> (args = [] \<or> arenas t (hd args) = None)"
  then show "trackInstr ns instr t = t" using untracked_region_ignored by blast
next
  assume "node_of ns instr = Call (Some c) fv args
        \<and> Contains (fullName c) ''arena.New['' \<and> args \<noteq> []"
  then show "allocToArena (trackInstr1 ns instr t1) instr = Some (hd args)"
    using trackInstr1_records by blast
qed

text \<open>\<^verbatim>\<open>func helper(a *arena.Arena) *int { return arena.New[int](a) }\<close>\<close>

definition fnHelper :: ssa_function where
  "fnHelper =
     \<lparr>Blocks = Some [[2, 3]],
      nodes = [OtherValue, OtherValue,
               Call (Some cNew) 0 [1],
               Return [2]],
      Type = (\<lambda>v. Pointer OtherType)\<rparr>"

text \<open>
  Claim C8 as stated fails on \<open>checkFunctionFinal\<close>: the allocation into the region
  parameter gets an entry although no region is tracked.
\<close>

theorem untracked_allocate_recorded_by_checkFunctionFinal:
  "allocToArena (firstPass1 (nodes fnHelper) (blocks_of fnHelper)) 2 = Some 1
   \<and> arenas1 (firstPass1 (nodes fnHelper) (blocks_of fnHelper)) = {}"
  by (simp add: fnHelper_def firstPass1_def trackInstr1_def trackCall1_def blocks_of_def
        node_of_def cNew_def)

theorem untracked_allocate_ignored_witness:
  "node_of (nodes fnHelper) 2 = Call (Some cNew) 0 [1]
   \<and> trackInstr (nodes fnHelper) 2 emptyTracker = emptyTracker
   \<and> allocations (firstPass (nodes fnHelper) (blocks_of fnHelper)) 2 = None
   \<and> allocToArena (trackInstr1 (nodes fnHelper) 2 \<lparr>arenas1 = {}, allocToArena = Map.empty\<rparr>) 2
       = Some 1
   \<and> checkFunctionFinal2 fnHelper = []"
proof -
  have n: "node_of (nodes fnHelper) 2 = Call (Some cNew) 0 [1]"
    by (simp add: fnHelper_def node_of_def)
  have c: "\<not> Contains (fullName cNew) ''arena.NewArena''"
    and d: "Contains (fullName cNew) ''arena.New[''"
    by (simp_all add: cNew_def)
  have a: "arenas emptyTracker (hd [1]) = None" by (simp add: emptyTracker_def)
  note th = untracked_allocate_ignored[of "nodes fnHelper" "blocks_of fnHelper" 2 _ 2 cNew 0 "[1]"
          emptyTracker "\<lparr>arenas1 = {}, allocToArena = Map.empty\<rparr>"]
  from th n c a have 1: "trackInstr (nodes fnHelper) 2 emptyTracker = emptyTracker" by blast
  from th n d have 2: "allocToArena (trackInstr1 (nodes fnHelper) 2
            \<lparr>arenas1 = {}, allocToArena = Map.empty\<rparr>) 2 = Some 1" by simp
  have 3: "allocations (firstPass (nodes fnHelper) (blocks_of fnHelper)) 2 = None"
    by (simp add: fnHelper_def analyzer_defs)
  have 4: "checkFunctionFinal2 fnHelper = []"
    by (simp add: fnHelper_def analyzer_defs)
  from n 1 2 3 4 show ?thesis by simp
qed

section \<open>Nil blocks and nil instructions\<close>

text \<open>
  The functions above take a block as a list of instructions and an instruction as an entry
  of the node table, which is how \<^verbatim>\<open>go/ssa\<close> builds them. The Go types allow more:
  \<^verbatim>\<open>fn.Blocks\<close> is a \<^verbatim>\<open>[]*ssa.BasicBlock\<close> and may hold a nil pointer, and
  \<^verbatim>\<open>block.Instrs\<close> is a slice of the interface \<^verbatim>\<open>ssa.Instruction\<close> and may hold nil. This
  section reads the two passes once more over such input, with the run-time failure of Go as
  a value.
\<close>

datatype failure = NilDereference

text \<open>
  \<open>irBlocks\<close>: nil, or a list whose entries are nil or a block; the entries of a block are
  nil or an instruction.
\<close>

record ir_function =
  irBlocks :: "vid option list option list option"
  irNodes :: "node list"
  irType :: "vid \<Rightarrow> gtype"

text \<open>\<open>asBuilt\<close>: the same function with its nil entries left out.\<close>

definition asBuilt :: "ir_function \<Rightarrow> ssa_function" where
  "asBuilt f =
     \<lparr>Blocks = map_option
                 (map (\<lambda>block. case block of
                                  None \<Rightarrow> []
                                | Some instrs \<Rightarrow> List.map_filter (\<lambda>instr. instr) instrs))
                 (irBlocks f),
      nodes = irNodes f,
      Type = irType f\<rparr>"

text \<open>
  First pass. \<^verbatim>\<open>block.Instrs\<close> dereferences the block pointer and fails on nil. The
  type assertions \<^verbatim>\<open>instr.(*ssa.Call)\<close> and \<^verbatim>\<open>instr.(*ssa.Store)\<close> are in the two-result
  form and are false of a nil instruction, which is passed over.
\<close>

definition trackInstr_nil :: "node list \<Rightarrow> vid option \<Rightarrow> tracker \<Rightarrow> tracker" where
  "trackInstr_nil ns instr t = (case instr of None \<Rightarrow> t | Some i \<Rightarrow> trackInstr ns i t)"

fun firstPass_nil ::
    "node list \<Rightarrow> vid option list option list \<Rightarrow> tracker \<Rightarrow> failure + tracker" where
  "firstPass_nil ns [] t = Inr t"
| "firstPass_nil ns (None # rest) t = Inl NilDereference"
| "firstPass_nil ns (Some instrs # rest) t =
     firstPass_nil ns rest (fold (trackInstr_nil ns) instrs t)"

text \<open>
  Second pass. For a nil instruction \<^verbatim>\<open>freeInstrs[instr]\<close> finds nothing and the type
  assertions are false, but \<open>checkUseAfterFree\<close>, entered when \<^verbatim>\<open>len(freedArenas) > 0\<close>,
  begins with the method call \<^verbatim>\<open>instr.Operands(nil)\<close>, which fails on a nil interface.
  A failure ends the run; the reports made before it are lost with it.
\<close>

fun sweepBlock_nil ::
    "ssa_function \<Rightarrow> tracker \<Rightarrow> vid set \<Rightarrow> vid option list \<Rightarrow> failure + diagnostic list" where
  "sweepBlock_nil fn t freedArenas [] = Inr []"
| "sweepBlock_nil fn t freedArenas (None # rest) =
     (if freedArenas \<noteq> {} then Inl NilDereference
      else sweepBlock_nil fn t freedArenas rest)"
| "sweepBlock_nil fn t freedArenas (Some instr # rest) =
     (let freedArenas' = noteFree t instr freedArenas
      in case sweepBlock_nil fn t freedArenas' rest of
           Inl e \<Rightarrow> Inl e
         | Inr ds \<Rightarrow> Inr (checkInstr fn t freedArenas' instr @ ds))"

fun secondPass_nil ::
    "ssa_function \<Rightarrow> tracker \<Rightarrow> vid option list option list \<Rightarrow> failure + diagnostic list" where
  "secondPass_nil fn t [] = Inr []"
| "secondPass_nil fn t (None # rest) = Inl NilDereference"
| "secondPass_nil fn t (Some instrs # rest) =
     (case sweepBlock_nil fn t {} instrs of
        Inl e \<Rightarrow> Inl e
      | Inr ds \<Rightarrow>
          (case secondPass_nil fn t rest of
             Inl e \<Rightarrow> Inl e
           | Inr ds' \<Rightarrow> Inr (ds @ ds')))"

text \<open>\<open>runFinal2\<close> over functions of this shape, with its two guards.\<close>

definition checkFunctionFinal2_nil :: "ir_function \<Rightarrow> failure + diagnostic list" where
  "checkFunctionFinal2_nil f =
     (let blocks = (case irBlocks f of None \<Rightarrow> [] | Some bs \<Rightarrow> bs)
      in case firstPass_nil (irNodes f) blocks emptyTracker of
           Inl e \<Rightarrow> Inl e
         | Inr t \<Rightarrow> secondPass_nil (asBuilt f) t blocks)"

fun runFinal2_nil :: "ir_function option list \<Rightarrow> failure + diagnostic list" where
  "runFinal2_nil [] = Inr []"
| "runFinal2_nil (None # rest) = runFinal2_nil rest"
| "runFinal2_nil (Some f # rest) =
     (if irBlocks f = None then runFinal2_nil rest
      else (case checkFunctionFinal2_nil f of
              Inl e \<Rightarrow> Inl e
            | Inr ds \<Rightarrow>
                (case runFinal2_nil rest of
                   Inl e \<Rightarrow> Inl e
                 | Inr ds' \<Rightarrow> Inr (ds @ ds'))))"

text \<open>\<open>nonNil\<close>: no block of the function is nil and no instruction of a block is nil.\<close>

definition nonNilBlock :: "vid option list option \<Rightarrow> bool" where
  "nonNilBlock block =
     (case block of None \<Rightarrow> False | Some instrs \<Rightarrow> list_all (\<lambda>instr. instr \<noteq> None) instrs)"

definition nonNil :: "ir_function \<Rightarrow> bool" where
  "nonNil f = (case irBlocks f of None \<Rightarrow> True | Some bs \<Rightarrow> list_all nonNilBlock bs)"

definition builtBlock :: "vid option list option \<Rightarrow> vid list" where
  "builtBlock block =
     (case block of None \<Rightarrow> [] | Some instrs \<Rightarrow> List.map_filter (\<lambda>instr. instr) instrs)"

definition allNonNil :: "ir_function option list \<Rightarrow> bool" where
  "allNonNil irFuncs = list_all (\<lambda>f. case f of None \<Rightarrow> True | Some g \<Rightarrow> nonNil g) irFuncs"

text \<open>On input without nil entries the two readings agree, and nothing fails.\<close>

lemma asBuilt_blocks: "blocks_of (asBuilt f) =
    map builtBlock (case irBlocks f of None \<Rightarrow> [] | Some bs \<Rightarrow> bs)"
  by (cases "irBlocks f") (simp_all add: asBuilt_def blocks_of_def builtBlock_def[abs_def])

lemma fold_trackInstr_nil:
  "fold (trackInstr_nil ns) instrs t
     = fold (trackInstr ns) (List.map_filter (\<lambda>instr. instr) instrs) t"
proof (induction instrs arbitrary: t)
  case Nil
  show ?case by (simp add: List.map_filter_simps)
next
  case (Cons i rest)
  have "trackInstr_nil ns i t = (case i of None \<Rightarrow> t | Some j \<Rightarrow> trackInstr ns j t)"
    by (simp add: trackInstr_nil_def)
  then show ?case by (cases i) (simp_all add: Cons.IH List.map_filter_simps)
qed

lemma firstPass_nil_built:
  "list_all (\<lambda>b. b \<noteq> None) blocks \<Longrightarrow>
   firstPass_nil ns blocks t
     = Inr (fold (\<lambda>block t. fold (trackInstr ns) block t) (map builtBlock blocks) t)"
proof (induction blocks arbitrary: t)
  case Nil
  show ?case by simp
next
  case (Cons b rest)
  then obtain instrs where b: "b = Some instrs" by auto
  with Cons show ?case by (simp add: fold_trackInstr_nil builtBlock_def)
qed

lemma sweepBlock_nil_built:
  "list_all (\<lambda>instr. instr \<noteq> None) instrs \<Longrightarrow>
   sweepBlock_nil fn t F instrs = Inr (sweepBlock fn t F (List.map_filter (\<lambda>instr. instr) instrs))"
proof (induction instrs arbitrary: F)
  case Nil
  show ?case by (simp add: List.map_filter_simps)
next
  case (Cons i rest)
  then obtain instr where i: "i = Some instr" by auto
  with Cons show ?case by (simp add: List.map_filter_simps Let_def)
qed

lemma secondPass_nil_built:
  "list_all nonNilBlock blocks \<Longrightarrow>
   secondPass_nil fn t blocks = Inr (concat (map (sweepBlock fn t {}) (map builtBlock blocks)))"
proof (induction blocks)
  case Nil
  show ?case by simp
next
  case (Cons b rest)
  then obtain instrs where b: "b = Some instrs" "list_all (\<lambda>instr. instr \<noteq> None) instrs"
    by (auto simp: nonNilBlock_def split: option.splits)
  with Cons show ?case by (simp add: sweepBlock_nil_built builtBlock_def)
qed

lemma nonNilBlock_some: "list_all nonNilBlock blocks \<Longrightarrow> list_all (\<lambda>b. b \<noteq> None) blocks"
  by (induction blocks) (auto simp: nonNilBlock_def split: option.splits)

lemma checkFunctionFinal2_nil_built:
  assumes "nonNil f"
  shows "checkFunctionFinal2_nil f = Inr (checkFunctionFinal2 (asBuilt f))"
proof -
  let ?bs = "case irBlocks f of None \<Rightarrow> [] | Some bs \<Rightarrow> bs"
  from assms have a: "list_all nonNilBlock ?bs"
    by (cases "irBlocks f") (simp_all add: nonNil_def)
  have n: "nodes (asBuilt f) = irNodes f" by (simp add: asBuilt_def)
  from a show ?thesis
    by (simp add: checkFunctionFinal2_nil_def checkFunctionFinal2_def Let_def asBuilt_blocks
          firstPass_nil_built[OF nonNilBlock_some] secondPass_nil_built firstPass_def
          emptyTracker_def n)
qed

lemma runFinal2_nil_built:
  "list_all (\<lambda>f. case f of None \<Rightarrow> True | Some g \<Rightarrow> nonNil g) srcFuncs \<Longrightarrow>
   runFinal2_nil srcFuncs = Inr (runFinal2 (map (map_option asBuilt) srcFuncs))"
proof (induction srcFuncs)
  case Nil
  show ?case by (simp add: runFinal2_def)
next
  case (Cons f rest)
  then have ih: "runFinal2_nil rest = Inr (runFinal2 (map (map_option asBuilt) rest))" by simp
  show ?case
  proof (cases f)
    case None
    with ih show ?thesis by (simp add: runFinal2_def)
  next
    case (Some g)
    with Cons.prems have g: "nonNil g" by simp
    have b: "Blocks (asBuilt g) = None \<longleftrightarrow> irBlocks g = None" by (simp add: asBuilt_def)
    from Some ih g b show ?thesis
      by (simp add: runFinal2_def checkFunctionFinal2_nil_built)
  qed
qed

lemma runFinal2_nil_total:
  "allNonNil irFuncs \<Longrightarrow>
   runFinal2_nil irFuncs = Inr (runFinal2 (map (map_option asBuilt) irFuncs))"
  by (simp add: allNonNil_def runFinal2_nil_built)

lemmas nil_defs =
  checkFunctionFinal2_nil_def trackInstr_nil_def asBuilt_def List.map_filter_simps

section \<open>Totality\<close>

text \<open>\<open>resolverCase\<close>: the node kinds the type switch of \<open>findAllocationRec\<close> names.\<close>

fun resolverCase :: "node \<Rightarrow> bool" where
  "resolverCase (UnOp x) = True"
| "resolverCase (FieldAddr x) = True"
| "resolverCase (IndexAddr x idx) = True"
| "resolverCase (Phi edges) = True"
| "resolverCase (MakeInterface x) = True"
| "resolverCase n = False"

lemma no_case_no_edges: "\<not> resolverCase (node_of ns val) \<Longrightarrow> provenanceEdges ns stores val = []"
  by (cases "node_of ns val") (simp_all add: provenanceEdges_def)

lemma default_case_none:
  assumes "allocs val = None" and "\<not> resolverCase (node_of ns val)"
  shows "fst (findAllocationRec ns allocs stores val visited) = None"
  using assms by (simp add: findAllocationRec_edges no_case_no_edges)

lemma runFinal2_skip_nil: "runFinal2 (None # srcFuncs) = runFinal2 srcFuncs"
  by (simp add: runFinal2_def)

lemma runFinal2_skip_no_blocks:
  "Blocks fn = None \<Longrightarrow> runFinal2 (Some fn # srcFuncs) = runFinal2 srcFuncs"
  by (simp add: runFinal2_def)

text \<open>
  Claim C5, as amended. On every list of functions whose blocks and instructions are not
  nil, \<open>runFinal2\<close> ends without failure, with the reports of the functions as built.
  A nil function and a function whose block list is nil are skipped and add no report,
  whatever stands in the rest of the list. A value that is no tracked allocation and whose
  kind the type switch does not name resolves to none. Resolution is total: every argument
  is in the domain of the recursion. The other operations of the two passes do not fail:
  \<^verbatim>\<open>Args[0]\<close> is read behind \<^verbatim>\<open>len(call.Call.Args) > 0\<close> only (\<open>hd args\<close> behind
  \<open>args \<noteq> []\<close>), and a map read of an absent key yields the zero value.
\<close>

theorem analyzer_total:
  "(allNonNil irFuncs \<longrightarrow>
      runFinal2_nil irFuncs = Inr (runFinal2 (map (map_option asBuilt) irFuncs)))
   \<and> runFinal2_nil (None # irFuncs) = runFinal2_nil irFuncs
   \<and> (irBlocks f = None \<longrightarrow> runFinal2_nil (Some f # irFuncs) = runFinal2_nil irFuncs)
   \<and> runFinal2 (None # srcFuncs) = runFinal2 srcFuncs
   \<and> (Blocks fn = None \<longrightarrow> runFinal2 (Some fn # srcFuncs) = runFinal2 srcFuncs)
   \<and> (allocs val = None \<and> \<not> resolverCase (node_of ns val) \<longrightarrow>
        fst (findAllocationRec ns allocs stores val visited) = None
        \<and> findAllocation ns allocs stores val = None)
   \<and> findAllocationRec_findAllocationEdges_dom (Inl (ns, allocs, stores, val, visited))"
  using findAllocationRec_total
  by (simp add: runFinal2_nil_total runFinal2_skip_nil runFinal2_skip_no_blocks
        default_case_none findAllocation_def)

text \<open>
  \<open>irNilInstruction\<close>: a block that creates a region, releases it, and then holds a nil
  instruction. \<open>irNilBlock\<close>: a block list whose second entry is nil.
\<close>

definition irNilInstruction :: ir_function where
  "irNilInstruction =
     \<lparr>irBlocks = Some [Some [Some 2, Some 3, None, Some 4]],
      irNodes = [OtherValue, OtherValue,
                 Call (Some cNewArena) 0 [],
                 Call (Some cFree) 1 [2],
                 Return []],
      irType = (\<lambda>v. Pointer OtherType)\<rparr>"

definition irNilBlock :: ir_function where
  "irNilBlock =
     \<lparr>irBlocks = Some [Some [Some 0], None],
      irNodes = [Return []],
      irType = (\<lambda>v. Pointer OtherType)\<rparr>"

text \<open>
  Claim C5 as stated fails: the analyzer guards against a nil function and a nil block
  list and against nothing else that is nil. A nil instruction after a recorded release
  of its block, and a nil block, end the run with a nil dereference.
\<close>

theorem nil_instruction_or_block_panics:
  "runFinal2_nil [Some irNilInstruction] = Inl NilDereference
   \<and> runFinal2_nil [Some irNilBlock] = Inl NilDereference"
  by (simp add: irNilInstruction_def irNilBlock_def nil_defs analyzer_defs)

text \<open>
  A function without blocks; value 7 lies outside its table. \<open>irNoBlocks\<close> is the same
  function and \<open>irUseAfterFree\<close> is \<open>fnUseAfterFree\<close>, both without nil entries.
\<close>

definition fnNoBlocks :: ssa_function where
  "fnNoBlocks =
     \<lparr>Blocks = None,
      nodes = [OtherValue, Global, Call None 0 [1], Return [2]],
      Type = (\<lambda>v. Pointer OtherType)\<rparr>"

definition irNoBlocks :: ir_function where
  "irNoBlocks =
     \<lparr>irBlocks = None,
      irNodes = [OtherValue, Global, Call None 0 [1], Return [2]],
      irType = (\<lambda>v. Pointer OtherType)\<rparr>"

definition irUseAfterFree :: ir_function where
  "irUseAfterFree =
     \<lparr>irBlocks = Some [Some [Some 3, Some 4, Some 5, Some 6, Some 7]],
      irNodes = nodes fnUseAfterFree,
      irType = Type fnUseAfterFree\<rparr>"

theorem analyzer_total_witness:
  "allNonNil [None, Some irNoBlocks, Some irUseAfterFree]
   \<and> asBuilt irUseAfterFree = fnUseAfterFree
   \<and> runFinal2_nil [None, Some irNoBlocks, Some irUseAfterFree] = Inr [UseAfterFree 6 4]
   \<and> irBlocks irNoBlocks = None
   \<and> runFinal2_nil [None, Some irNoBlocks, None] = Inr []
   \<and> Blocks fnNoBlocks = None
   \<and> runFinal2 [None, Some fnNoBlocks, None] = []
   \<and> \<not> resolverCase (node_of (nodes fnNoBlocks) 2)
   \<and> \<not> resolverCase (node_of (nodes fnNoBlocks) 7)
   \<and> findAllocation (nodes fnNoBlocks) Map.empty Map.empty 2 = None
   \<and> findAllocation (nodes fnNoBlocks) Map.empty Map.empty 7 = None"
proof -
  have b: "Blocks fnNoBlocks = None" by (simp add: fnNoBlocks_def)
  have ib: "irBlocks irNoBlocks = None" by (simp add: irNoBlocks_def)
  have e: "runFinal2 [] = []" by (simp add: runFinal2_def)
  have c2: "\<not> resolverCase (node_of (nodes fnNoBlocks) 2)"
    and c7: "\<not> resolverCase (node_of (nodes fnNoBlocks) 7)"
    by (simp_all add: fnNoBlocks_def node_of_def)
  have a: "(Map.empty :: vid \<rightharpoonup> allocInfo) v = None" for v by simp
  have nn: "allNonNil [None, Some irNoBlocks, Some irUseAfterFree]"
    by (simp add: allNonNil_def nonNil_def nonNilBlock_def irNoBlocks_def irUseAfterFree_def)
  have ab: "asBuilt irUseAfterFree = fnUseAfterFree"
    by (simp add: asBuilt_def irUseAfterFree_def fnUseAfterFree_def List.map_filter_simps)
  have an: "Blocks (asBuilt irNoBlocks) = None" by (simp add: asBuilt_def irNoBlocks_def)
  have u: "runFinal2 [Some fnUseAfterFree] = [UseAfterFree 6 4]"
    using scenario_use_after_free by (simp add: runFinal2_def fnUseAfterFree_def)
  note t0 = analyzer_total[of "[None, Some irNoBlocks, Some irUseAfterFree]" irNoBlocks
              "[Some fnUseAfterFree]" "asBuilt irNoBlocks" Map.empty 2 "nodes fnNoBlocks"
              Map.empty "{}"]
  note t0' = analyzer_total[of "[]" irNoBlocks "[Some (asBuilt irNoBlocks), Some fnUseAfterFree]"
              "asBuilt irNoBlocks" Map.empty 2 "nodes fnNoBlocks" Map.empty "{}"]
  note t1 = analyzer_total[of "[Some irNoBlocks, None]" irNoBlocks "[Some fnNoBlocks, None]"
              fnNoBlocks Map.empty 2 "nodes fnNoBlocks" Map.empty "{}"]
  note t2 = analyzer_total[of "[None]" irNoBlocks "[None]" fnNoBlocks Map.empty 7
              "nodes fnNoBlocks" Map.empty "{}"]
  note t3 = analyzer_total[of "[]" irNoBlocks "[]" fnNoBlocks Map.empty 7 "nodes fnNoBlocks"
              Map.empty "{}"]
  from t0 t0' nn ab an u
  have r0: "runFinal2_nil [None, Some irNoBlocks, Some irUseAfterFree] = Inr [UseAfterFree 6 4]"
    by simp
  from t1 t2 t3 ib have ri: "runFinal2_nil [None, Some irNoBlocks, None] = Inr []" by simp
  from t1 t2 t3 b e have r: "runFinal2 [None, Some fnNoBlocks, None] = []" by simp
  from t1 c2 a have f2: "findAllocation (nodes fnNoBlocks) Map.empty Map.empty 2 = None" by simp
  from t2 c7 a have f7: "findAllocation (nodes fnNoBlocks) Map.empty Map.empty 7 = None" by simp
  from nn ab r0 ib ri b r c2 c7 f2 f7 show ?thesis by simp
qed

section \<open>Termination and the visited map\<close>

lemma derivedFrom_within:
  assumes "(v, w) \<in> derivedFrom ns stores" and "v \<in> S"
    and "\<And>x. x \<in> S \<Longrightarrow> set (provenanceEdges ns stores x) \<subseteq> S"
  shows "w \<in> S"
proof -
  from assms(1) have "(v, w) \<in> {(v, w). w \<in> set (provenanceEdges ns stores v)}\<^sup>*"
    by (simp add: derivedFrom_def)
  then show ?thesis
  proof (induction rule: rtrancl_induct)
    case base
    show ?case by (rule assms(2))
  next
    case (step y z)
    with assms(3)[of y] show ?case by auto
  qed
qed

lemma tracedFrom_within:
  assumes "(v, w) \<in> tracedFrom ns" and "v \<in> S"
    and "\<And>x. x \<in> S \<Longrightarrow> set (tracedEdges ns x) \<subseteq> S"
  shows "w \<in> S"
proof -
  from assms(1) have "(v, w) \<in> {(v, w). w \<in> set (tracedEdges ns v)}\<^sup>*"
    by (simp add: tracedFrom_def)
  then show ?thesis
  proof (induction rule: rtrancl_induct)
    case base
    show ?case by (rule assms(2))
  next
    case (step y z)
    with assms(3)[of y] show ?case by auto
  qed
qed

lemma unreachable_allocation_none:
  assumes "\<forall>w. (val, w) \<in> derivedFrom ns stores \<longrightarrow> allocs w = None"
  shows "findAllocation ns allocs stores val = None"
proof (rule ccontr)
  assume "findAllocation ns allocs stores val \<noteq> None"
  then obtain w where "(val, w) \<in> derivedFrom ns stores" "allocs w \<noteq> None"
    unfolding findAllocation_iff by blast
  with assms show False by simp
qed

lemma traces_unreachable_false:
  assumes "\<forall>w. (val, w) \<in> tracedFrom ns \<longrightarrow> allocTo w = None"
  shows "\<not> fst (tracesToArenaAlloc ns allocTo val visited)"
  using assms traces_sound_both(1)[of ns allocTo val visited] by auto

text \<open>
  Claim C6. Resolution terminates on every value graph, cyclic or not: every argument of
  \<open>findAllocationRec\<close> is in the accessible part of its recursion relation. A value already
  visited resolves to none at once and leaves the visited map unchanged; any other value is
  in the visited map when its edges are explored (they are explored from
  \<open>insert val visited\<close>) and when the call returns. A value from which no tracked
  allocation is reachable along the provenance edges, a cyclic merge included, resolves to
  none, and a returned result that resolves to none is not reported. The same holds of
  \<open>tracesToArenaAlloc\<close> in the earlier analyzer.
\<close>

theorem resolution_terminates:
  "findAllocationRec_findAllocationEdges_dom (Inl (ns, allocs, stores, val, visited))
   \<and> (val \<in> visited \<longrightarrow> findAllocationRec ns allocs stores val visited = (None, visited))
   \<and> val \<in> snd (findAllocationRec ns allocs stores val visited)
   \<and> (val \<notin> visited \<and> allocs val = None \<longrightarrow>
        findAllocationRec ns allocs stores val visited =
          findAllocationEdges ns allocs stores (provenanceEdges ns stores val)
            (insert val visited))
   \<and> ((\<forall>w. (val, w) \<in> derivedFrom ns stores \<longrightarrow> allocs w = None) \<longrightarrow>
        findAllocation ns allocs stores val = None)
   \<and> (findAllocation (nodes fn) (allocations t) (storesTo t) val = None \<longrightarrow>
        checkResult fn t ret val = [])
   \<and> tracesToArenaAlloc_tracesToArenaAllocEdges_dom (Inl (ns, allocTo, val, visited))
   \<and> (val \<in> visited \<longrightarrow> tracesToArenaAlloc ns allocTo val visited = (False, visited))
   \<and> val \<in> snd (tracesToArenaAlloc ns allocTo val visited)
   \<and> ((\<forall>w. (val, w) \<in> tracedFrom ns \<longrightarrow> allocTo w = None) \<longrightarrow>
        \<not> fst (tracesToArenaAlloc ns allocTo val visited))
   \<and> ((\<forall>w. (val, w) \<in> tracedFrom ns \<longrightarrow> allocToArena t1 w = None) \<longrightarrow>
        \<not> escapesViaReturn ns t1 val)"
proof (intro conjI impI)
  show "findAllocationRec_findAllocationEdges_dom (Inl (ns, allocs, stores, val, visited))"
    using findAllocationRec_total by simp
  show "tracesToArenaAlloc_tracesToArenaAllocEdges_dom (Inl (ns, allocTo, val, visited))"
    using tracesToArenaAlloc_total by simp
  show "val \<in> snd (findAllocationRec ns allocs stores val visited)"
    by (rule visited_marks)
  show "val \<in> snd (tracesToArenaAlloc ns allocTo val visited)"
    by (rule traces_marks)
next
  assume "val \<in> visited"
  then show "findAllocationRec ns allocs stores val visited = (None, visited)"
    by (simp add: findAllocationRec_edges)
next
  assume "val \<in> visited"
  then show "tracesToArenaAlloc ns allocTo val visited = (False, visited)"
    by (rule traces_revisit)
next
  assume "val \<notin> visited \<and> allocs val = None"
  then show "findAllocationRec ns allocs stores val visited =
          findAllocationEdges ns allocs stores (provenanceEdges ns stores val)
            (insert val visited)"
    by (simp add: findAllocationRec_edges)
next
  assume "\<forall>w. (val, w) \<in> derivedFrom ns stores \<longrightarrow> allocs w = None"
  then show "findAllocation ns allocs stores val = None"
    by (rule unreachable_allocation_none)
next
  assume "findAllocation (nodes fn) (allocations t) (storesTo t) val = None"
  then show "checkResult fn t ret val = []" by (simp add: checkResult_def)
next
  assume "\<forall>w. (val, w) \<in> tracedFrom ns \<longrightarrow> allocTo w = None"
  then show "\<not> fst (tracesToArenaAlloc ns allocTo val visited)"
    by (rule traces_unreachable_false)
next
  assume u: "\<forall>w. (val, w) \<in> tracedFrom ns \<longrightarrow> allocToArena t1 w = None"
  then have "allocToArena t1 val = None" using tracedFrom_refl by blast
  with traces_unreachable_false[OF u, of "{}"] show "\<not> escapesViaReturn ns t1 val"
    by (simp add: escapesViaReturn_def)
qed

text \<open>
  A loop: the merge at 4 takes a parameter and the load at 5 of the merge itself. The
  function allocates at 3 but returns the merge, from which the allocation is not
  reachable.
\<close>

definition fnCyclicPhi :: ssa_function where
  "fnCyclicPhi =
     \<lparr>Blocks = Some [[2, 3], [4, 5], [7]],
      nodes = [OtherValue, OtherValue,
               Call (Some cNewArena) 0 [],
               Call (Some cNew) 1 [2],
               Phi [6, 5],
               UnOp 4,
               OtherValue,
               Return [4]],
      Type = (\<lambda>v. Pointer OtherType)\<rparr>"

lemma fnCyclicPhi_allocations:
  "allocations (firstPass (nodes fnCyclicPhi) (blocks_of fnCyclicPhi)) w \<noteq> None \<longleftrightarrow> w = 3"
  by (simp add: fnCyclicPhi_def analyzer_defs)

lemma fnCyclicPhi_storesTo:
  "storesTo (firstPass (nodes fnCyclicPhi) (blocks_of fnCyclicPhi)) = Map.empty"
  by (simp add: fnCyclicPhi_def analyzer_defs)

lemma fnCyclicPhi_allocToArena:
  "allocToArena (firstPass1 (nodes fnCyclicPhi) (blocks_of fnCyclicPhi)) w \<noteq> None \<longleftrightarrow> w = 3"
  by (simp add: fnCyclicPhi_def firstPass1_def trackInstr1_def trackCall1_def blocks_of_def
        node_of_def cNew_def cNewArena_def)

lemma fnCyclicPhi_reach:
  assumes "(4, w) \<in> derivedFrom (nodes fnCyclicPhi) Map.empty"
  shows "w \<in> {4, 5, 6}"
proof (rule derivedFrom_within[OF assms])
  show "4 \<in> {4, 5, 6 :: vid}" by simp
  show "set (provenanceEdges (nodes fnCyclicPhi) Map.empty x) \<subseteq> {4, 5, 6}"
    if "x \<in> {4, 5, 6}" for x
    using that by (auto simp: provenanceEdges_def fnCyclicPhi_def node_of_def)
qed

lemma fnCyclicPhi_traced:
  assumes "(4, w) \<in> tracedFrom (nodes fnCyclicPhi)"
  shows "w \<in> {4, 5, 6}"
proof (rule tracedFrom_within[OF assms])
  show "4 \<in> {4, 5, 6 :: vid}" by simp
  show "set (tracedEdges (nodes fnCyclicPhi) x) \<subseteq> {4, 5, 6}"
    if "x \<in> {4, 5, 6}" for x
    using that by (auto simp: tracedEdges_def fnCyclicPhi_def node_of_def)
qed

theorem resolution_terminates_witness:
  "findAllocation (nodes fnCyclicPhi)
      (allocations (firstPass (nodes fnCyclicPhi) (blocks_of fnCyclicPhi)))
      (storesTo (firstPass (nodes fnCyclicPhi) (blocks_of fnCyclicPhi))) 4 = None
   \<and> checkResult fnCyclicPhi (firstPass (nodes fnCyclicPhi) (blocks_of fnCyclicPhi)) 7 4 = []
   \<and> findAllocationRec (nodes fnCyclicPhi)
      (allocations (firstPass (nodes fnCyclicPhi) (blocks_of fnCyclicPhi)))
      (storesTo (firstPass (nodes fnCyclicPhi) (blocks_of fnCyclicPhi))) 4 {4} = (None, {4})
   \<and> \<not> fst (tracesToArenaAlloc (nodes fnCyclicPhi)
              (allocToArena (firstPass1 (nodes fnCyclicPhi) (blocks_of fnCyclicPhi))) 4 {})
   \<and> tracesToArenaAlloc (nodes fnCyclicPhi)
        (allocToArena (firstPass1 (nodes fnCyclicPhi) (blocks_of fnCyclicPhi))) 4 {4}
       = (False, {4})
   \<and> checkFunctionFinal2 fnCyclicPhi = []"
proof -
  let ?ns = "nodes fnCyclicPhi"
  let ?t = "firstPass ?ns (blocks_of fnCyclicPhi)"
  let ?t1 = "firstPass1 ?ns (blocks_of fnCyclicPhi)"
  have h: "\<forall>w. (4, w) \<in> derivedFrom ?ns (storesTo ?t) \<longrightarrow> allocations ?t w = None"
  proof (intro allI impI)
    fix w assume "(4, w) \<in> derivedFrom ?ns (storesTo ?t)"
    then have "w \<in> {4, 5, 6}" using fnCyclicPhi_reach by (simp add: fnCyclicPhi_storesTo)
    then have "w \<noteq> 3" by auto
    then show "allocations ?t w = None" using fnCyclicPhi_allocations[of w] by simp
  qed
  have h1: "\<forall>w. (4, w) \<in> tracedFrom ?ns \<longrightarrow> allocToArena ?t1 w = None"
  proof (intro allI impI)
    fix w assume "(4, w) \<in> tracedFrom ?ns"
    then have "w \<in> {4, 5, 6}" by (rule fnCyclicPhi_traced)
    then have "w \<noteq> 3" by auto
    then show "allocToArena ?t1 w = None" using fnCyclicPhi_allocToArena[of w] by simp
  qed
  note a = resolution_terminates[of ?ns "allocations ?t" "storesTo ?t" 4 "{}" fnCyclicPhi ?t 7
             "allocToArena ?t1" ?t1]
  note b = resolution_terminates[of ?ns "allocations ?t" "storesTo ?t" 4 "{4}" fnCyclicPhi ?t 7
             "allocToArena ?t1" ?t1]
  from a h have 1: "findAllocation ?ns (allocations ?t) (storesTo ?t) 4 = None" by blast
  from a 1 have 2: "checkResult fnCyclicPhi ?t 7 4 = []" by blast
  from b have 3: "findAllocationRec ?ns (allocations ?t) (storesTo ?t) 4 {4} = (None, {4})"
    by simp
  from a h1 have 4: "\<not> fst (tracesToArenaAlloc ?ns (allocToArena ?t1) 4 {})" by blast
  from b have 5: "tracesToArenaAlloc ?ns (allocToArena ?t1) 4 {4} = (False, {4})" by simp
  have 6: "checkFunctionFinal2 fnCyclicPhi = []"
    by (simp add: fnCyclicPhi_def analyzer_defs)
  from 1 2 3 4 5 6 show ?thesis by simp
qed

section \<open>Control-flow merges\<close>

lemma phi_resolves_edges:
  assumes "node_of ns val = Phi edges" and "val \<notin> visited" and "allocs val = None"
  shows "findAllocationRec ns allocs stores val visited =
           findAllocationEdges ns allocs stores edges (insert val visited)"
  using assms by (simp add: findAllocationRec_edges provenanceEdges_def)

lemma phi_edge_carries:
  assumes "node_of ns val = Phi edges" and "e \<in> set edges"
    and "findAllocation ns allocs stores e \<noteq> None"
  shows "findAllocation ns allocs stores val \<noteq> None"
proof -
  from assms(3) obtain w where w: "(e, w) \<in> derivedFrom ns stores" "allocs w \<noteq> None"
    unfolding findAllocation_iff by blast
  from assms(1,2) have "e \<in> set (provenanceEdges ns stores val)"
    by (simp add: provenanceEdges_def)
  then have "(val, w) \<in> derivedFrom ns stores" using w(1) by (rule derivedFrom_step)
  with w(2) show ?thesis unfolding findAllocation_iff by blast
qed

text \<open>
  Claim C7. At a merge that is not visited and is no allocation itself, the resolver runs
  the loop over the incoming edges in their order. The loop returns an allocation exactly
  when some edge resolves to it and every edge before that one resolved to none, each edge
  being tried in the visited map the edges before it left: the result is the allocation of
  the first edge that resolves. When some incoming edge resolves to an allocation on its
  own, so does the merge.
\<close>

theorem phi_first_allocation:
  "(node_of ns val = Phi edges \<and> val \<notin> visited \<and> allocs val = None \<longrightarrow>
      findAllocationRec ns allocs stores val visited =
        findAllocationEdges ns allocs stores edges (insert val visited))
   \<and> (findAllocationEdges ns allocs stores es visited = (Some alloc, visited') \<longleftrightarrow>
       (\<exists>i<length es.
           fst (findAllocationEdges ns allocs stores (take i es) visited) = None
         \<and> findAllocationRec ns allocs stores (es ! i)
              (snd (findAllocationEdges ns allocs stores (take i es) visited))
             = (Some alloc, visited')))
   \<and> (node_of ns val = Phi edges \<and> e \<in> set edges
        \<and> findAllocation ns allocs stores e \<noteq> None \<longrightarrow>
        findAllocation ns allocs stores val \<noteq> None)"
  using phi_resolves_edges[of ns val edges visited allocs stores]
        phi_edge_carries[of ns val edges e allocs stores]
        edges_first_resolving[of ns allocs stores es visited alloc visited']
  by blast

text \<open>
  \<^verbatim>\<open>var p *int; if c { p = arena.New[int](a) }; return p\<close>: the returned merge of the nil
  constant 2 and the allocation 4 is reported.
\<close>

definition fnNilOrAlloc :: ssa_function where
  "fnNilOrAlloc =
     \<lparr>Blocks = Some [[3, 4, 5], [6], [7, 8]],
      nodes = [OtherValue, OtherValue,
               OtherValue,
               Call (Some cNewArena) 0 [],
               Call (Some cNew) 1 [3],
               OtherInstr [Some 9],
               OtherInstr [],
               Phi [2, 4],
               Return [7],
               OtherValue],
      Type = (\<lambda>v. Pointer OtherType)\<rparr>"

theorem phi_first_allocation_witness:
  "node_of (nodes fnNilOrAlloc) 7 = Phi [2, 4]
   \<and> findAllocation (nodes fnNilOrAlloc)
        (allocations (firstPass (nodes fnNilOrAlloc) (blocks_of fnNilOrAlloc)))
        (storesTo (firstPass (nodes fnNilOrAlloc) (blocks_of fnNilOrAlloc))) 2 = None
   \<and> findAllocation (nodes fnNilOrAlloc)
        (allocations (firstPass (nodes fnNilOrAlloc) (blocks_of fnNilOrAlloc)))
        (storesTo (firstPass (nodes fnNilOrAlloc) (blocks_of fnNilOrAlloc))) 4 \<noteq> None
   \<and> findAllocation (nodes fnNilOrAlloc)
        (allocations (firstPass (nodes fnNilOrAlloc) (blocks_of fnNilOrAlloc)))
        (storesTo (firstPass (nodes fnNilOrAlloc) (blocks_of fnNilOrAlloc))) 7 \<noteq> None
   \<and> checkFunctionFinal2 fnNilOrAlloc = [EscapesViaReturn 8 4]"
proof -
  let ?ns = "nodes fnNilOrAlloc"
  let ?t = "firstPass ?ns (blocks_of fnNilOrAlloc)"
  have n: "node_of ?ns 7 = Phi [2, 4]" by (simp add: fnNilOrAlloc_def node_of_def)
  have e2: "findAllocation ?ns (allocations ?t) (storesTo ?t) 2 = None"
    by (simp add: fnNilOrAlloc_def analyzer_defs)
  have e4: "findAllocation ?ns (allocations ?t) (storesTo ?t) 4 \<noteq> None"
    by (simp add: fnNilOrAlloc_def analyzer_defs)
  note th = phi_first_allocation[of ?ns 7 "[2, 4]" "{}" "allocations ?t" "storesTo ?t" _ _ _ 4]
  from th n e4 have p: "findAllocation ?ns (allocations ?t) (storesTo ?t) 7 \<noteq> None" by simp
  have c: "checkFunctionFinal2 fnNilOrAlloc = [EscapesViaReturn 8 4]"
    by (simp add: fnNilOrAlloc_def analyzer_defs)
  from n e2 e4 p c show ?thesis by simp
qed

end
